theory Spec2Isabelle
  imports Main "HOL-Library.Multiset" "HOL-Library.Sublist"
begin

section \<open>Strings of the source language\<close>

text \<open>
  The component \<^verbatim>\<open>GiveawayDraw.tsx\<close> works on JavaScript strings: sequences of UTF-16
  code units. A code unit is a natural number (below \<open>2 ^ 16\<close> in a string of the
  program; the functions below are defined on every natural number). The regular
  expression of the parser has no \<^verbatim>\<open>u\<close> flag, so it reads a text code unit by code unit.
\<close>

type_synonym code_unit = nat

type_synonym jsstring = "code_unit list"

text \<open>A literal of the theory as a JavaScript string (its characters are code units
  below U+0100).\<close>

definition utf16 :: "string \<Rightarrow> jsstring" where
  "utf16 s = map of_char s"

text \<open>
  White space as \<^verbatim>\<open>String.prototype.trim\<close> and the class \<^verbatim>\<open>\s\<close> see it: tab, line feed,
  vertical tab, form feed, carriage return, space, no-break space, U+1680, U+2000 to
  U+200A, the line and paragraph separators U+2028 and U+2029, U+202F, U+205F, U+3000 and
  the byte order mark U+FEFF.
\<close>

definition is_space :: "code_unit \<Rightarrow> bool" where
  "is_space c \<longleftrightarrow>
     c \<in> set [0x09, 0x0A, 0x0B, 0x0C, 0x0D, 0x20, 0xA0, 0x1680, 0x2028, 0x2029, 0x202F,
              0x205F, 0x3000, 0xFEFF] \<or>
     (0x2000 \<le> c \<and> c \<le> 0x200A)"

text \<open>Line terminators: the code units the regular expression \<^verbatim>\<open>.\<close> does not match.\<close>

definition is_line_terminator :: "code_unit \<Rightarrow> bool" where
  "is_line_terminator c \<longleftrightarrow> c \<in> set [0x0A, 0x0D, 0x2028, 0x2029]"

text \<open>The class \<^verbatim>\<open>\d\<close>: the digits 0 to 9.\<close>

definition is_digit :: "code_unit \<Rightarrow> bool" where
  "is_digit c \<longleftrightarrow> 48 \<le> c \<and> c \<le> 57"

definition trim :: "jsstring \<Rightarrow> jsstring" where
  "trim s = rev (dropWhile is_space (rev (dropWhile is_space s)))"

text \<open>\<^verbatim>\<open>s.split('\n')\<close>: the pieces between line feeds (code unit 10); the empty text
  gives one empty piece.\<close>

fun split_nl :: "jsstring \<Rightarrow> jsstring list" where
  "split_nl [] = [[]]"
| "split_nl (c # cs) =
     (if c = 10 then [] # split_nl cs
      else (case split_nl cs of [] \<Rightarrow> [[c]] | l # ls \<Rightarrow> (c # l) # ls))"

text \<open>\<^verbatim>\<open>s.replace(/\s+/g, '-')\<close>: every maximal run of white space becomes one hyphen
  (code unit 45).\<close>

function replace_ws :: "jsstring \<Rightarrow> jsstring" where
  "replace_ws [] = []"
| "replace_ws (c # cs) =
     (if is_space c then 45 # replace_ws (dropWhile is_space cs)
      else c # replace_ws cs)"
  by pat_completeness auto
termination
  by (relation "measure length") (auto simp: length_dropWhile_le less_Suc_eq_le)

section \<open>Numbers of the source language\<close>

text \<open>
  A JavaScript number is a double. The parser only produces the values of
  \<^verbatim>\<open>parseInt\<close> on a run of decimal digits: the non-negative integers a double can
  hold, and \<^verbatim>\<open>Infinity\<close>.
\<close>

datatype jsnumber = Finite nat | Infinity

text \<open>
  The conversion of a non-negative integer to a double: round to 53 significant bits,
  to nearest, ties to even; from \<open>2 ^ 1024\<close> on the result is \<^verbatim>\<open>Infinity\<close>.
  \<open>significand_shift m\<close> is the number of low bits that do not fit.
\<close>

function significand_shift :: "nat \<Rightarrow> nat" where
  "significand_shift m = (if m < 2 ^ 53 then 0 else Suc (significand_shift (m div 2)))"
  by pat_completeness auto
termination
  by (relation "measure id") auto

declare significand_shift.simps [simp del]

definition toDouble :: "nat \<Rightarrow> jsnumber" where
  "toDouble m =
     (let sh = significand_shift m;
          q = m div 2 ^ sh;
          r = m mod 2 ^ sh;
          q' = (if 2 ^ sh < 2 * r \<or> (2 * r = 2 ^ sh \<and> odd q) then q + 1 else q);
          v = q' * 2 ^ sh
      in if 2 ^ 1024 \<le> v then Infinity else Finite v)"

text \<open>
  \<^verbatim>\<open>parseInt(numberStr, 10)\<close> on a run of decimal digits: the integer the digits
  write, converted to a double. (The language allows an implementation to read the digits
  after the twentieth as zeros; the model rounds the integer written, as the engines in
  use do. The two agree on every run whose digits after the twentieth are zeros.)
\<close>

definition digits_value :: "jsstring \<Rightarrow> nat" where
  "digits_value ds = foldl (\<lambda>acc c. 10 * acc + (c - 48)) 0 ds"

definition parseInt :: "jsstring \<Rightarrow> jsnumber" where
  "parseInt ds = toDouble (digits_value ds)"

text \<open>The decimal digits of a natural number.\<close>

fun decimal_digits :: "nat \<Rightarrow> jsstring" where
  "decimal_digits n =
     (if n < 10 then [48 + n] else decimal_digits (n div 10) @ [48 + n mod 10])"

declare decimal_digits.simps [simp del]

text \<open>
  The template literal \<^verbatim>\<open>`${number}`\<close> prints a number with the fewest significant
  digits that still denote it: the decimal \<open>s * 10 ^ e\<close> with the largest \<open>e\<close> that
  converts back to the number, the closest one when two do (the even \<open>s\<close> on a tie).
  Up to 21 digits are written out; a longer number is written in exponent form.
\<close>

definition candidates :: "nat \<Rightarrow> nat \<Rightarrow> nat list" where
  "candidates x e =
     filter (\<lambda>s. 0 < s \<and> toDouble (s * 10 ^ e) = Finite x) [x div 10 ^ e, x div 10 ^ e + 1]"

definition closest :: "nat \<Rightarrow> nat \<Rightarrow> nat list \<Rightarrow> nat option" where
  "closest x e ss =
     (case ss of
        [] \<Rightarrow> None
      | [s] \<Rightarrow> Some s
      | a # b # _ \<Rightarrow>
          (let da = x - a * 10 ^ e; db = b * 10 ^ e - x
           in if da < db then Some a else if db < da then Some b
              else if even a then Some a else Some b))"

fun shortest :: "nat \<Rightarrow> nat \<Rightarrow> nat \<times> nat" where
  "shortest x e =
     (case closest x e (candidates x e) of
        Some s \<Rightarrow> (s, e)
      | None \<Rightarrow> if e = 0 then (x, 0) else shortest x (e - 1))"

declare shortest.simps [simp del]

definition toString :: "jsnumber \<Rightarrow> jsstring" where
  "toString x =
     (case x of
        Infinity \<Rightarrow> utf16 ''Infinity''
      | Finite v \<Rightarrow>
          (case shortest v (length (decimal_digits v)) of (s, e) \<Rightarrow>
             (let ds = decimal_digits s; k = length ds; n = k + e
              in if n \<le> 21 then ds @ replicate e 48
                 else if k = 1 then ds @ utf16 ''e+'' @ decimal_digits (n - 1)
                 else hd ds # 46 # tl ds @ utf16 ''e+'' @ decimal_digits (n - 1))))"

section \<open>Data model\<close>

record Participant =
  number :: jsnumber
  name :: jsstring
  ident :: jsstring

type_synonym date = nat

record Winner = Participant +
  drawnAt :: date
  position :: nat

section \<open>The parser\<close>

text \<open>
  \<^verbatim>\<open>s.match(/^(\d+)\s*-\s*(.+)$/)\<close>, returning the two captured groups. The digits
  and the white space before the hyphen are taken greedily and cannot be given back
  (what follows them must be a hyphen). After the hyphen the white space is taken
  greedily as well; when nothing is left for \<^verbatim>\<open>(.+)\<close> the matcher backtracks and
  hands the last white space code unit over to the second group.
\<close>

definition match_line :: "jsstring \<Rightarrow> (jsstring \<times> jsstring) option" where
  "match_line s =
     (let numberStr = takeWhile is_digit s in
      if numberStr = [] then None
      else case dropWhile is_space (dropWhile is_digit s) of
        [] \<Rightarrow> None
      | h # r \<Rightarrow>
          if h \<noteq> 45 then None
          else let ws = takeWhile is_space r; rest = dropWhile is_space r in
            if \<exists>c \<in> set rest. is_line_terminator c then None
            else if rest \<noteq> [] then Some (numberStr, rest)
            else if ws \<noteq> [] \<and> \<not> is_line_terminator (last ws) then Some (numberStr, [last ws])
            else None)"

text \<open>
  The body of the \<^verbatim>\<open>for\<close> loop: \<open>Some p\<close> when the line pushes \<open>p\<close> onto
  \<^verbatim>\<open>parsed\<close>. The test \<^verbatim>\<open>!isNaN(number)\<close> never fails on a run of digits.
  The case mapping \<^verbatim>\<open>toLowerCase\<close> follows the Unicode tables of the language, which
  are not part of the repository: it is the parameter \<open>L\<close>.
\<close>

definition parse_line :: "(jsstring \<Rightarrow> jsstring) \<Rightarrow> jsstring \<Rightarrow> Participant option" where
  "parse_line L line =
     (case match_line (trim line) of
        None \<Rightarrow> None
      | Some (numberStr, nm) \<Rightarrow>
          let n = parseInt numberStr in
          if trim nm \<noteq> [] then
            Some \<lparr>number = n, name = trim nm,
                  ident = toString n @ utf16 ''-'' @ L (replace_ws (trim nm))\<rparr>
          else None)"

definition parseParticipants :: "(jsstring \<Rightarrow> jsstring) \<Rightarrow> jsstring \<Rightarrow> Participant list" where
  "parseParticipants L text =
     (let lines = filter (\<lambda>line. trim line \<noteq> []) (split_nl (trim text)) in
      foldl (\<lambda>parsed line. case parse_line L line of None \<Rightarrow> parsed | Some p \<Rightarrow> parsed @ [p])
        [] lines)"

text \<open>The case mapping on a text of code units below U+0080, used to run the examples.\<close>

definition ascii_lower :: "jsstring \<Rightarrow> jsstring" where
  "ascii_lower s = map (\<lambda>c. if 65 \<le> c \<and> c \<le> 90 then c + 32 else c) s"

section \<open>The component state and its handlers\<close>

text \<open>
  The six \<^verbatim>\<open>useState\<close> cells of the component, and the callbacks scheduled with
  \<^verbatim>\<open>setTimeout\<close> that have not run yet. A scheduled callback is a closure: it holds
  the \<^verbatim>\<open>participants\<close> and \<^verbatim>\<open>winners\<close> of the render in which \<^verbatim>\<open>drawWinner\<close>
  ran. All callbacks have the same delay, so they run in the order they were scheduled.
\<close>

record state =
  participantText :: jsstring
  participants :: "Participant list"
  originalParticipants :: "Participant list"
  winners :: "Winner list"
  currentWinner :: "Winner option"
  isDrawing :: bool
  timeouts :: "(Participant list \<times> Winner list) list"

definition initial :: state where
  "initial = \<lparr>participantText = [], participants = [], originalParticipants = [],
     winners = [], currentWinner = None, isDrawing = False, timeouts = []\<rparr>"

text \<open>The notifications, named by their titles; each carries the values its description
  interpolates.\<close>

datatype toast =
    InvalidFormat
  | DuplicateNumbers "jsnumber list"
  | ParticipantsLoaded nat
  | NoParticipants
  | WinnerDrawn jsstring
  | DrawReset

text \<open>\<^verbatim>\<open>Array.prototype.indexOf\<close>: the first index holding the value, or \<open>-1\<close>.\<close>

fun indexOf :: "'a list \<Rightarrow> 'a \<Rightarrow> int" where
  "indexOf [] x = - 1"
| "indexOf (y # ys) x =
     (if y = x then 0 else (let k = indexOf ys x in if k < 0 then - 1 else k + 1))"

text \<open>\<^verbatim>\<open>[...new Set(xs)]\<close>: the distinct values in the order of their first occurrence.\<close>

definition new_Set :: "'a list \<Rightarrow> 'a list" where
  "new_Set xs = foldl (\<lambda>acc x. if x \<in> set acc then acc else acc @ [x]) [] xs"

text \<open>\<^verbatim>\<open>xs.filter((x, index) => p(x, index))\<close>.\<close>

definition filter_indexed :: "('a \<Rightarrow> nat \<Rightarrow> bool) \<Rightarrow> 'a list \<Rightarrow> 'a list" where
  "filter_indexed p xs = map fst (filter (\<lambda>(x, index). p x index) (zip xs [0..<length xs]))"

text \<open>\<^verbatim>\<open>numbers.filter((num, index) => numbers.indexOf(num) !== index)\<close>.\<close>

definition duplicates :: "jsnumber list \<Rightarrow> jsnumber list" where
  "duplicates numbers =
     filter_indexed (\<lambda>num index. indexOf numbers num \<noteq> int index) numbers"

definition handleParticipantsSubmit ::
    "(jsstring \<Rightarrow> jsstring) \<Rightarrow> state \<Rightarrow> state \<times> toast option" where
  "handleParticipantsSubmit L s =
     (let parsed = parseParticipants L (participantText s) in
      if length parsed = 0 then (s, Some InvalidFormat)
      else
        let numbers = map number parsed in
          if length (duplicates numbers) > 0
          then (s, Some (DuplicateNumbers (new_Set (duplicates numbers))))
          else (s\<lparr>participants := parsed, originalParticipants := parsed,
                   winners := [], currentWinner := None\<rparr>,
                Some (ParticipantsLoaded (length parsed))))"

text \<open>The synchronous part of \<^verbatim>\<open>drawWinner\<close>: the guard, the two state updates and the
  call of \<^verbatim>\<open>setTimeout\<close>.\<close>

definition drawWinner :: "state \<Rightarrow> state \<times> toast option" where
  "drawWinner s =
     (if length (participants s) = 0 then (s, Some NoParticipants)
      else (s\<lparr>isDrawing := True, currentWinner := None,
               timeouts := timeouts s @ [(participants s, winners s)]\<rparr>, None))"

text \<open>
  The callback of \<^verbatim>\<open>setTimeout\<close>, run with the closure \<open>(ps, ws)\<close>. The argument \<open>i\<close> is
  the value of \<^verbatim>\<open>Math.floor(Math.random() * participants.length)\<close>, which lies below
  the length of the captured list; \<open>d\<close> is the value of \<^verbatim>\<open>new Date()\<close>. There is no
  result for an index that \<^verbatim>\<open>Math.random\<close> cannot produce.
\<close>

definition revealWinner ::
    "Participant list \<times> Winner list \<Rightarrow> nat \<Rightarrow> date \<Rightarrow> state \<Rightarrow> (state \<times> toast option) option" where
  "revealWinner cl randomIndex d s =
     (case cl of (ps, ws) \<Rightarrow>
        if randomIndex < length ps then
          let selectedParticipant = ps ! randomIndex;
              winner = \<lparr>number = number selectedParticipant, name = name selectedParticipant,
                        ident = ident selectedParticipant,
                        drawnAt = d, position = length ws + 1\<rparr>
          in Some (s\<lparr>currentWinner := Some winner,
                     winners := winners s @ [winner],
                     participants := filter_indexed (\<lambda>_ index. index \<noteq> randomIndex) (participants s),
                     isDrawing := False\<rparr>,
                   Some (WinnerDrawn (name winner)))
        else None)"

definition resetDraw :: "state \<Rightarrow> state \<times> toast option" where
  "resetDraw s =
     (s\<lparr>participants := originalParticipants s, winners := [], currentWinner := None\<rparr>,
      Some DrawReset)"

definition clearAll :: "state \<Rightarrow> state \<times> toast option" where
  "clearAll s =
     (s\<lparr>participantText := [], participants := [], originalParticipants := [],
         winners := [], currentWinner := None\<rparr>, None)"

text \<open>The oldest pending callback runs.\<close>

definition timerFires :: "nat \<Rightarrow> date \<Rightarrow> state \<Rightarrow> (state \<times> toast option) option" where
  "timerFires i d s =
     (case timeouts s of
        [] \<Rightarrow> None
      | cl # rest \<Rightarrow> revealWinner cl i d (s\<lparr>timeouts := rest\<rparr>))"

section \<open>The controls\<close>

text \<open>
  What can happen to the component: the user edits the text area, presses one of the four
  buttons, or the oldest pending timer fires.
\<close>

datatype event =
    Change jsstring
  | ClickLoad
  | ClickClear
  | ClickReset
  | ClickDraw
  | TimerFires nat date

text \<open>
  The JSX renders the input card (text area, load button, clear button) when the pool is
  empty and the draw section (reset, clear and draw buttons) when it is not. A button
  that is not rendered or is \<^verbatim>\<open>disabled\<close> delivers no click.
\<close>

definition enabled :: "state \<Rightarrow> event \<Rightarrow> bool" where
  "enabled s e =
     (case e of
        Change _ \<Rightarrow> length (participants s) = 0
      | ClickLoad \<Rightarrow> length (participants s) = 0 \<and> \<not> (trim (participantText s) = [])
      | ClickClear \<Rightarrow> True
      | ClickReset \<Rightarrow>
          length (participants s) > 0 \<and> \<not> (isDrawing s \<or> length (winners s) = 0)
      | ClickDraw \<Rightarrow>
          length (participants s) > 0 \<and> \<not> (isDrawing s \<or> length (participants s) = 0)
      | TimerFires _ _ \<Rightarrow> timeouts s \<noteq> [])"

text \<open>The handler behind each event.\<close>

definition handler ::
    "(jsstring \<Rightarrow> jsstring) \<Rightarrow> event \<Rightarrow> state \<Rightarrow> (state \<times> toast option) option" where
  "handler L e s =
     (case e of
        Change t \<Rightarrow> Some (s\<lparr>participantText := t\<rparr>, None)
      | ClickLoad \<Rightarrow> Some (handleParticipantsSubmit L s)
      | ClickClear \<Rightarrow> Some (clearAll s)
      | ClickReset \<Rightarrow> Some (resetDraw s)
      | ClickDraw \<Rightarrow> Some (drawWinner s)
      | TimerFires i d \<Rightarrow> timerFires i d s)"

text \<open>An event delivered through the controls: \<open>None\<close> when the event cannot occur in
  this state.\<close>

definition deliver ::
    "(jsstring \<Rightarrow> jsstring) \<Rightarrow> event \<Rightarrow> state \<Rightarrow> (state \<times> toast option) option" where
  "deliver L e s = (if enabled s e then handler L e s else None)"

text \<open>The component after an event was attempted: an event that cannot occur leaves
  the state as it is.\<close>

definition after :: "(jsstring \<Rightarrow> jsstring) \<Rightarrow> event \<Rightarrow> state \<Rightarrow> state" where
  "after L e s = (case deliver L e s of None \<Rightarrow> s | Some (s', _) \<Rightarrow> s')"

text \<open>A session: the events in order, each one possible when it occurs.\<close>

fun run :: "(jsstring \<Rightarrow> jsstring) \<Rightarrow> event list \<Rightarrow> state \<Rightarrow> state option" where
  "run L [] s = Some s"
| "run L (e # es) s = (case deliver L e s of None \<Rightarrow> None | Some (s', _) \<Rightarrow> run L es s')"

text \<open>
  One complete draw: \<^verbatim>\<open>drawWinner\<close> runs and the callback it scheduled is the next
  thing to happen. There is no draw (\<open>None\<close>) when no callback is pending afterwards.
\<close>

definition draw :: "nat \<Rightarrow> date \<Rightarrow> state \<Rightarrow> state option" where
  "draw i d s =
     (case drawWinner s of (s1, _) \<Rightarrow>
        (case timerFires i d s1 of None \<Rightarrow> None | Some (s2, _) \<Rightarrow> Some s2))"

text \<open>Successive complete draws, one per pair of a random index and a time.\<close>

fun draws :: "(nat \<times> date) list \<Rightarrow> state \<Rightarrow> state option" where
  "draws [] s = Some s"
| "draws ((i, d) # picks) s = (case draw i d s of None \<Rightarrow> None | Some s' \<Rightarrow> draws picks s')"

text \<open>At most one callback is pending, and one is pending exactly while the drawing flag
  is set.\<close>

definition one_timer :: "state \<Rightarrow> bool" where
  "one_timer s \<longleftrightarrow> (isDrawing s \<longleftrightarrow> timeouts s \<noteq> []) \<and> length (timeouts s) \<le> 1"

text \<open>A session in which the clear button is never pressed while a draw is in progress.\<close>

fun clear_waits :: "(jsstring \<Rightarrow> jsstring) \<Rightarrow> event list \<Rightarrow> state \<Rightarrow> bool" where
  "clear_waits L [] s = True"
| "clear_waits L (e # es) s =
     (\<not> (e = ClickClear \<and> isDrawing s) \<and>
      (case deliver L e s of None \<Rightarrow> True | Some (s', _) \<Rightarrow> clear_waits L es s'))"

section \<open>The specification's notions\<close>

text \<open>The lines of a text: the pieces that, joined by line feeds, give the text back.\<close>

fun join_lines :: "jsstring list \<Rightarrow> jsstring" where
  "join_lines [] = []"
| "join_lines [l] = l"
| "join_lines (l # ls) = l @ 10 # join_lines ls"

definition lines_of :: "jsstring \<Rightarrow> jsstring list \<Rightarrow> bool" where
  "lines_of text ls \<longleftrightarrow> ls \<noteq> [] \<and> (\<forall>l \<in> set ls. 10 \<notin> set l) \<and> join_lines ls = text"

text \<open>\<open>trimmed s t\<close>: \<open>t\<close> is \<open>s\<close> without its leading and trailing white space.\<close>

definition trimmed :: "jsstring \<Rightarrow> jsstring \<Rightarrow> bool" where
  "trimmed s t \<longleftrightarrow>
     (\<exists>a b. s = a @ t @ b \<and> list_all is_space a \<and> list_all is_space b \<and>
        (t = [] \<or> (\<not> is_space (hd t) \<and> \<not> is_space (last t))))"

text \<open>The integer a run of digits writes, in positional notation.\<close>

definition decimal :: "jsstring \<Rightarrow> nat" where
  "decimal ds = (\<Sum>i < length ds. (ds ! i - 48) * 10 ^ (length ds - Suc i))"

text \<open>\<open>numeral_of n ds\<close>: \<open>ds\<close> is the decimal numeral of \<open>n\<close>, without leading zeros.\<close>

definition numeral_of :: "nat \<Rightarrow> jsstring \<Rightarrow> bool" where
  "numeral_of n ds \<longleftrightarrow>
     ds \<noteq> [] \<and> list_all is_digit ds \<and> decimal ds = n \<and> (ds = [48] \<or> hd ds \<noteq> 48)"

text \<open>
  \<open>hyphenated s t\<close>: \<open>s\<close> is made of words (non-empty, free of white space) separated
  by runs of white space, and \<open>t\<close> is made of the same words separated by single hyphens.
\<close>

inductive hyphenated :: "jsstring \<Rightarrow> jsstring \<Rightarrow> bool" where
  word: "w \<noteq> [] \<Longrightarrow> list_all (\<lambda>c. \<not> is_space c) w \<Longrightarrow> hyphenated w w"
| gap: "w \<noteq> [] \<Longrightarrow> list_all (\<lambda>c. \<not> is_space c) w \<Longrightarrow> g \<noteq> [] \<Longrightarrow> list_all is_space g \<Longrightarrow>
     hyphenated s t \<Longrightarrow> hyphenated (w @ g @ s) (w @ 45 # t)"

text \<open>
  The line format,
  \<^verbatim>\<open><integer><optional whitespace>-<optional whitespace><rest-of-line>\<close>:
  \<open>line_pattern l ds rest\<close> holds when the line \<open>l\<close> splits into a non-empty run of
  digits \<open>ds\<close>, white space, a hyphen, white space, and a non-empty remainder \<open>rest\<close>
  that holds no line terminator.
\<close>

definition line_pattern :: "jsstring \<Rightarrow> jsstring \<Rightarrow> jsstring \<Rightarrow> bool" where
  "line_pattern l ds rest \<longleftrightarrow>
     (\<exists>w1 w2. l = ds @ w1 @ 45 # w2 @ rest \<and>
        ds \<noteq> [] \<and> list_all is_digit ds \<and> list_all is_space w1 \<and> list_all is_space w2 \<and>
        rest \<noteq> [] \<and> list_all (\<lambda>c. \<not> is_line_terminator c) rest)"

text \<open>
  The participant read off a line: the trimmed line has the format, the trimmed
  remainder is not empty; the number is the double of the integer written, the name is
  the trimmed remainder, and the key is the printed number, a hyphen, and the hyphenated
  name in lower case.
\<close>

definition entry_of :: "(jsstring \<Rightarrow> jsstring) \<Rightarrow> jsstring \<Rightarrow> Participant \<Rightarrow> bool" where
  "entry_of L line p \<longleftrightarrow>
     (\<exists>t ds rest nm h. trimmed line t \<and> line_pattern t ds rest \<and> trimmed rest nm \<and> nm \<noteq> [] \<and>
        number p = toDouble (decimal ds) \<and> name p = nm \<and> hyphenated nm h \<and>
        ident p = toString (number p) @ 45 # L h)"

text \<open>The numbers \<^verbatim>\<open>parseInt\<close> can return: a double converts to itself.\<close>

definition is_double :: "jsnumber \<Rightarrow> bool" where
  "is_double n = (case n of Infinity \<Rightarrow> True | Finite v \<Rightarrow> toDouble v = Finite v)"

text \<open>The integer a printed number writes, in plain or in exponent form.\<close>

definition denoted :: "jsstring \<Rightarrow> nat" where
  "denoted out =
     (if 101 \<in> set out then
        (let mant = filter is_digit (takeWhile (\<lambda>c. c \<noteq> 101) out);
             ex = digits_value (drop 2 (dropWhile (\<lambda>c. c \<noteq> 101) out))
         in digits_value mant * 10 ^ (ex + 1 - length mant))
      else digits_value out)"

text \<open>The participant fields of a winner.\<close>

definition participant_of :: "Winner \<Rightarrow> Participant" where
  "participant_of w = \<lparr>number = number w, name = name w, ident = ident w\<rparr>"

text \<open>
  The pool invariant of the specification: the remaining pool keeps the order of the
  snapshot, the remaining pool and the winners together are exactly the snapshot, and
  the winners carry the positions 1, 2, ... in the order they were drawn.
\<close>

definition pool_invariant :: "state \<Rightarrow> bool" where
  "pool_invariant s \<longleftrightarrow>
     subseq (participants s) (originalParticipants s) \<and>
     mset (participants s) + mset (map participant_of (winners s)) = mset (originalParticipants s) \<and>
     map position (winners s) = [1..<Suc (length (winners s))]"

text \<open>
  The drawing flag and the pending callbacks agree: while a draw is in progress exactly
  one callback is pending and it holds the current pool and history; otherwise none is.
\<close>

definition coherent :: "state \<Rightarrow> bool" where
  "coherent s \<longleftrightarrow>
     (if isDrawing s then participants s \<noteq> [] \<and> timeouts s = [(participants s, winners s)]
      else timeouts s = [])"

section \<open>Example states\<close>

text \<open>A small session used to run the definitions: two entries are loaded, and then a
  draw is started.\<close>

definition alice :: Participant where
  "alice = \<lparr>number = Finite 1, name = utf16 ''Alice'', ident = utf16 ''1-alice''\<rparr>"

definition bob :: Participant where
  "bob = \<lparr>number = Finite 2, name = utf16 ''Bob'', ident = utf16 ''2-bob''\<rparr>"

definition loaded :: state where
  "loaded = \<lparr>participantText = utf16 ''1 - Alice\<newline>2 - Bob'', participants = [alice, bob],
     originalParticipants = [alice, bob], winners = [], currentWinner = None,
     isDrawing = False, timeouts = []\<rparr>"

definition drawing :: state where
  "drawing = loaded\<lparr>isDrawing := True, timeouts := [([alice, bob], [])]\<rparr>"

text \<open>The state in which a winner of a cleared list is on display.\<close>

definition ghost :: state where
  "ghost = \<lparr>participantText = [], participants = [], originalParticipants = [],
     winners = [\<lparr>number = Finite 1, name = utf16 ''Alice'', ident = utf16 ''1-alice'',
                 drawnAt = 1000, position = 1\<rparr>],
     currentWinner = Some \<lparr>number = Finite 1, name = utf16 ''Alice'', ident = utf16 ''1-alice'',
                 drawnAt = 1000, position = 1\<rparr>,
     isDrawing = False, timeouts = []\<rparr>"

section \<open>Conversion to a double\<close>

lemma shift_small: "m < 2 ^ 53 \<Longrightarrow> significand_shift m = 0"
  by (subst significand_shift.simps) simp

lemma shift_large: "\<not> m < 2 ^ 53 \<Longrightarrow> significand_shift m = Suc (significand_shift (m div 2))"
  by (subst significand_shift.simps) simp

lemma div_pow2_Suc: "(m::nat) div 2 ^ Suc j = m div 2 div 2 ^ j"
  by (simp add: div_mult2_eq)

lemma shift_quot: "m div 2 ^ significand_shift m < 2 ^ 53"
proof (induction m rule: significand_shift.induct)
  case (1 m)
  show ?case
  proof (cases "m < 2 ^ 53")
    case True
    then show ?thesis by (simp add: shift_small)
  next
    case False
    have "m div 2 ^ significand_shift m = m div 2 div 2 ^ significand_shift (m div 2)"
      unfolding shift_large [OF False] div_pow2_Suc ..
    then show ?thesis using "1.IH" [OF False] by simp
  qed
qed

lemma shift_quot_ge: "2 ^ 53 \<le> m \<Longrightarrow> 2 ^ 52 \<le> m div 2 ^ significand_shift m"
proof (induction m rule: significand_shift.induct)
  case (1 m)
  from "1.prems" have large: "\<not> m < 2 ^ 53" by simp
  show ?case
  proof (cases "m div 2 < 2 ^ 53")
    case True
    then have "significand_shift (m div 2) = 0" by (rule shift_small)
    then have "m div 2 ^ significand_shift m = m div 2"
      using large by (simp add: shift_large)
    moreover have "(2::nat) ^ 52 \<le> m div 2" using "1.prems" by simp
    ultimately show ?thesis by simp
  next
    case False
    then have "2 ^ 53 \<le> m div 2" by simp
    from "1.IH" [OF large this] have "2 ^ 52 \<le> m div 2 div 2 ^ significand_shift (m div 2)" .
    moreover have "m div 2 ^ significand_shift m = m div 2 div 2 ^ significand_shift (m div 2)"
      unfolding shift_large [OF large] div_pow2_Suc ..
    ultimately show ?thesis by simp
  qed
qed

lemma shift_unique:
  "v div 2 ^ j < 2 ^ 53 \<Longrightarrow> (j = 0 \<or> 2 ^ 53 \<le> v div 2 ^ (j - 1)) \<Longrightarrow> significand_shift v = j"
proof (induction v arbitrary: j rule: significand_shift.induct)
  case (1 v)
  show ?case
  proof (cases "v < 2 ^ 53")
    case True
    have "j = 0"
    proof (rule ccontr)
      assume "j \<noteq> 0"
      with "1.prems"(2) have "2 ^ 53 \<le> v div 2 ^ (j - 1)" by simp
      moreover have "v div 2 ^ (j - 1) \<le> v" by (rule div_le_dividend)
      ultimately show False using True by linarith
    qed
    then show ?thesis using True by (simp add: shift_small)
  next
    case False
    have "j \<noteq> 0"
    proof
      assume "j = 0"
      with "1.prems"(1) show False using False by simp
    qed
    then obtain j' where j: "j = Suc j'" by (cases j) auto
    have a: "v div 2 div 2 ^ j' < 2 ^ 53"
      using "1.prems"(1) unfolding j div_pow2_Suc .
    have b: "j' = 0 \<or> 2 ^ 53 \<le> v div 2 div 2 ^ (j' - 1)"
    proof (cases j')
      case 0
      then show ?thesis by simp
    next
      case (Suc i)
      with "1.prems"(2) j have "2 ^ 53 \<le> v div 2 ^ Suc i" by simp
      then show ?thesis using Suc by (simp only: div_pow2_Suc) simp
    qed
    from "1.IH" [OF False a b] show ?thesis using False j by (simp add: shift_large)
  qed
qed

lemma toDouble_exact: "m < 2 ^ 53 \<Longrightarrow> toDouble m = Finite m"
proof -
  assume m: "m < 2 ^ 53"
  have "(2::nat) ^ 53 < 2 ^ 1024" by simp
  with m have "\<not> 2 ^ 1024 \<le> m" by linarith
  then show ?thesis using m by (simp add: toDouble_def shift_small)
qed

lemma toDouble_aligned:
  assumes "significand_shift v = j" and "2 ^ j dvd v" and "v < 2 ^ 1024"
  shows "toDouble v = Finite v"
proof -
  have r: "v mod 2 ^ j = 0" using assms(2) by simp
  have q: "v div 2 ^ j * 2 ^ j = v" using assms(2) by simp
  have p: "\<not> (2::nat) ^ j < 0" "(0::nat) \<noteq> 2 ^ j" by simp_all
  show ?thesis
    unfolding toDouble_def Let_def assms(1) r using q assms(3) by simp
qed

lemma toDouble_shape:
  assumes "toDouble m = Finite v"
  obtains q' where "v = q' * 2 ^ significand_shift m"
    and "m div 2 ^ significand_shift m \<le> q'" and "q' \<le> m div 2 ^ significand_shift m + 1"
    and "v < 2 ^ 1024"
proof -
  let ?sh = "significand_shift m"
  let ?q = "m div 2 ^ ?sh"
  let ?r = "m mod 2 ^ ?sh"
  let ?q' = "if 2 ^ ?sh < 2 * ?r \<or> (2 * ?r = 2 ^ ?sh \<and> odd ?q) then ?q + 1 else ?q"
  from assms have "\<not> 2 ^ 1024 \<le> ?q' * 2 ^ ?sh" and "v = ?q' * 2 ^ ?sh"
    unfolding toDouble_def Let_def by (auto split: if_splits)
  moreover have "?q \<le> ?q'" "?q' \<le> ?q + 1" by auto
  ultimately show ?thesis using that [of ?q'] by (metis not_le)
qed

lemma toDouble_large:
  assumes "2 ^ 53 \<le> m" and "toDouble m = Finite v"
  shows "2 ^ 53 \<le> v"
proof -
  from assms(1) have l: "\<not> m < 2 ^ 53" by simp
  obtain j where j: "significand_shift m = Suc j" using shift_large [OF l] by blast
  from toDouble_shape [OF assms(2)] obtain q' where
    v: "v = q' * 2 ^ significand_shift m" and q: "m div 2 ^ significand_shift m \<le> q'"
    by blast
  from shift_quot_ge [OF assms(1)] q have "2 ^ 52 \<le> q'" by simp
  then have "2 ^ 52 * 2 ^ Suc j \<le> q' * 2 ^ Suc j" by (rule mult_le_mono1)
  moreover have "(2::nat) ^ 53 \<le> 2 ^ 52 * 2 ^ Suc j" by simp
  ultimately show ?thesis unfolding v j by linarith
qed

lemma toDouble_idem:
  assumes "toDouble m = Finite v"
  shows "toDouble v = Finite v"
proof (cases "m < 2 ^ 53")
  case True
  then show ?thesis using assms by (simp add: toDouble_exact)
next
  case False
  then have m: "2 ^ 53 \<le> m" by simp
  obtain j where j: "significand_shift m = Suc j" using shift_large [OF False] by blast
  from toDouble_shape [OF assms] obtain q' where
    v: "v = q' * 2 ^ Suc j" and lo: "m div 2 ^ Suc j \<le> q'" and hi: "q' \<le> m div 2 ^ Suc j + 1"
    and fin: "v < 2 ^ 1024"
    unfolding j by blast
  have q1: "2 ^ 52 \<le> q'" using shift_quot_ge [OF m] lo unfolding j by simp
  have q2: "q' \<le> 2 ^ 53" using shift_quot [of m] hi unfolding j by simp
  show ?thesis
  proof (cases "q' < 2 ^ 53")
    case True
    have a: "v div 2 ^ Suc j < 2 ^ 53" unfolding v using True by simp
    have "v div 2 ^ j = q' * 2" unfolding v by simp
    then have b: "Suc j = 0 \<or> 2 ^ 53 \<le> v div 2 ^ (Suc j - 1)" using q1 by simp
    have "significand_shift v = Suc j" using a b by (rule shift_unique)
    moreover have "2 ^ Suc j dvd v" unfolding v by simp
    ultimately show ?thesis using fin by (rule toDouble_aligned)
  next
    case False
    with q2 have q: "q' = 2 ^ 53" by simp
    have v': "v = 2 ^ 52 * 2 ^ Suc (Suc j)" unfolding v q by simp
    have a: "v div 2 ^ Suc (Suc j) < 2 ^ 53" unfolding v' by simp
    have "v div 2 ^ Suc j = 2 ^ 53" unfolding v q by simp
    then have b: "Suc (Suc j) = 0 \<or> 2 ^ 53 \<le> v div 2 ^ (Suc (Suc j) - 1)" by simp
    have "significand_shift v = Suc (Suc j)" using a b by (rule shift_unique)
    moreover have "2 ^ Suc (Suc j) dvd v" unfolding v' by simp
    ultimately show ?thesis using fin by (rule toDouble_aligned)
  qed
qed

text \<open>The double of an integer is a multiple of the unit in the last place, at most half
  a unit away from the integer, and the even multiple when two are as close.\<close>

lemma toDouble_nearest:
  assumes "toDouble m = Finite v"
  shows "2 ^ significand_shift m dvd v \<and>
         2 * (v - m) \<le> 2 ^ significand_shift m \<and> 2 * (m - v) \<le> 2 ^ significand_shift m \<and>
         (2 * (v - m) = 2 ^ significand_shift m \<or> 2 * (m - v) = 2 ^ significand_shift m
            \<longrightarrow> even (v div 2 ^ significand_shift m))"
proof -
  define sh where "sh = significand_shift m"
  define q where "q = m div 2 ^ sh"
  define r where "r = m mod 2 ^ sh"
  have m: "m = q * 2 ^ sh + r"
    unfolding q_def r_def using div_mult_mod_eq [of m "2 ^ sh"] by presburger
  have r: "r < 2 ^ sh" unfolding r_def by simp
  show ?thesis
  proof (cases "2 ^ sh < 2 * r \<or> (2 * r = 2 ^ sh \<and> odd q)")
    case True
    then have v: "v = (q + 1) * 2 ^ sh"
      using assms unfolding toDouble_def Let_def sh_def [symmetric] q_def [symmetric]
        r_def [symmetric]
      by (simp split: if_splits)
    have d: "v - m = 2 ^ sh - r" "m - v = 0" using r unfolding v m by (simp_all add: algebra_simps)
    have "v div 2 ^ sh = q + 1" unfolding v by simp
    then show ?thesis
      unfolding sh_def [symmetric] d using True r v by auto
  next
    case False
    then have v: "v = q * 2 ^ sh"
      using assms unfolding toDouble_def Let_def sh_def [symmetric] q_def [symmetric]
        r_def [symmetric]
      by (simp split: if_splits)
    have d: "v - m = 0" "m - v = r" unfolding v m by simp_all
    have "v div 2 ^ sh = q" unfolding v by simp
    then show ?thesis
      unfolding sh_def [symmetric] d using False r v by auto
  qed
qed

section \<open>Decimal digits\<close>

lemma digits_small: "n < 10 \<Longrightarrow> decimal_digits n = [48 + n]"
  by (subst decimal_digits.simps) simp

lemma digits_large:
  "\<not> n < 10 \<Longrightarrow> decimal_digits n = decimal_digits (n div 10) @ [48 + n mod 10]"
  by (subst decimal_digits.simps) simp

lemma digits_not_Nil: "decimal_digits n \<noteq> []"
  by (cases "n < 10") (simp_all add: digits_small digits_large)

lemma digits_are_digits: "c \<in> set (decimal_digits n) \<Longrightarrow> is_digit c"
proof (induction n rule: decimal_digits.induct)
  case (1 n)
  show ?case
  proof (cases "n < 10")
    case True
    with "1.prems" show ?thesis by (simp add: digits_small is_digit_def)
  next
    case False
    have "n mod 10 < 10" by simp
    then have "is_digit (48 + n mod 10)" unfolding is_digit_def by linarith
    with "1.prems" "1.IH" [OF False] False show ?thesis
      by (auto simp: digits_large)
  qed
qed

lemma digits_value_snoc: "digits_value (ds @ [c]) = 10 * digits_value ds + (c - 48)"
  by (simp add: digits_value_def)

lemma digits_value_digits: "digits_value (decimal_digits n) = n"
proof (induction n rule: decimal_digits.induct)
  case (1 n)
  show ?case
  proof (cases "n < 10")
    case True
    then show ?thesis by (simp add: digits_small digits_value_def)
  next
    case False
    then show ?thesis using "1.IH" [OF False] by (simp add: digits_large digits_value_snoc)
  qed
qed

lemma digits_inj: "decimal_digits m = decimal_digits n \<Longrightarrow> m = n"
  by (metis digits_value_digits)

lemma digits_times_10: "0 < n \<Longrightarrow> decimal_digits (n * 10) = decimal_digits n @ [48]"
proof -
  assume "0 < n"
  then have "\<not> n * 10 < 10" by simp
  then show ?thesis by (simp add: digits_large)
qed

lemma digits_times_pow10:
  "0 < n \<Longrightarrow> decimal_digits (n * 10 ^ e) = decimal_digits n @ replicate e 48"
proof (induction e)
  case 0
  then show ?case by simp
next
  case (Suc e)
  have "n * 10 ^ Suc e = (n * 10 ^ e) * 10" by simp
  then have "decimal_digits (n * 10 ^ Suc e) = decimal_digits ((n * 10 ^ e) * 10)"
    by (simp only:)
  also have "\<dots> = decimal_digits (n * 10 ^ e) @ [48]"
    using Suc.prems by (intro digits_times_10) simp
  also have "\<dots> = decimal_digits n @ replicate e 48 @ [48]"
    using Suc by simp
  finally show ?case by (simp add: replicate_append_same)
qed

lemma digits_length_le: "n < 10 ^ k \<Longrightarrow> 0 < k \<Longrightarrow> length (decimal_digits n) \<le> k"
proof (induction n arbitrary: k rule: decimal_digits.induct)
  case (1 n)
  show ?case
  proof (cases "n < 10")
    case True
    then show ?thesis using "1.prems" by (simp add: digits_small)
  next
    case False
    obtain j where k: "k = Suc j" using "1.prems"(2) by (cases k) auto
    have j: "0 < j"
    proof (rule ccontr)
      assume "\<not> 0 < j"
      then show False using "1.prems"(1) False k by simp
    qed
    have "n div 10 < 10 ^ j" using "1.prems"(1) k by (simp add: less_mult_imp_div_less mult.commute)
    from "1.IH" [OF False this j] show ?thesis using False k by (simp add: digits_large)
  qed
qed

lemma digits_hd: "0 < n \<Longrightarrow> hd (decimal_digits n) \<noteq> 48"
proof (induction n rule: decimal_digits.induct)
  case (1 n)
  show ?case
  proof (cases "n < 10")
    case True
    then show ?thesis using "1.prems" by (simp add: digits_small)
  next
    case False
    then have "0 < n div 10" by simp
    from "1.IH" [OF False this] show ?thesis
      using False by (simp add: digits_large digits_not_Nil)
  qed
qed

section \<open>The printed form of a number\<close>

lemma candidates_sound:
  "s \<in> set (candidates x e) \<Longrightarrow> 0 < s \<and> toDouble (s * 10 ^ e) = Finite x"
  by (auto simp: candidates_def split: if_splits)

lemma closest_mem: "closest x e ss = Some s \<Longrightarrow> s \<in> set ss"
  by (auto simp: closest_def Let_def split: list.splits if_splits)

lemma shortest_sound:
  "toDouble x = Finite x \<Longrightarrow> shortest x e = (s, e') \<Longrightarrow>
   toDouble (s * 10 ^ e') = Finite x \<and> (0 < s \<or> e' = 0)"
proof (induction x e rule: shortest.induct)
  case (1 x e)
  from "1.prems"(2) have u:
    "(case closest x e (candidates x e) of Some s \<Rightarrow> (s, e)
      | None \<Rightarrow> if e = 0 then (x, 0) else shortest x (e - 1)) = (s, e')"
    by (subst (asm) shortest.simps)
  show ?case
  proof (cases "closest x e (candidates x e)")
    case (Some s0)
    with u have "s = s0" "e' = e" by simp_all
    moreover have "0 < s0 \<and> toDouble (s0 * 10 ^ e) = Finite x"
      using closest_mem [OF Some] by (rule candidates_sound)
    ultimately show ?thesis by simp
  next
    case None
    show ?thesis
    proof (cases "e = 0")
      case True
      with None u have "s = x" "e' = 0" by simp_all
      then show ?thesis using "1.prems"(1) by simp
    next
      case False
      with None u have "shortest x (e - 1) = (s, e')" by simp
      from "1.IH" [OF None False "1.prems"(1) this] show ?thesis .
    qed
  qed
qed

lemma shortest_exact:
  assumes "x < 2 ^ 53" and "shortest x e = (s, e')"
  shows "s * 10 ^ e' = x \<and> (0 < s \<or> e' = 0)"
proof -
  have d: "toDouble x = Finite x" using assms(1) by (rule toDouble_exact)
  from shortest_sound [OF d assms(2)]
  have r: "toDouble (s * 10 ^ e') = Finite x" and z: "0 < s \<or> e' = 0" by simp_all
  have "s * 10 ^ e' = x"
  proof (cases "s * 10 ^ e' < 2 ^ 53")
    case True
    then show ?thesis using r by (simp add: toDouble_exact)
  next
    case False
    then have "2 ^ 53 \<le> s * 10 ^ e'" by simp
    from toDouble_large [OF this r] assms(1) show ?thesis by simp
  qed
  with z show ?thesis by simp
qed

lemma digits_of_product:
  "0 < s \<or> e = 0 \<Longrightarrow> decimal_digits s @ replicate e 48 = decimal_digits (s * 10 ^ e)"
  by (cases "0 < s") (auto simp: digits_times_pow10)

lemma toString_exact:
  assumes "x < 2 ^ 53"
  shows "toString (Finite x) = decimal_digits x"
proof -
  obtain s e where sh: "shortest x (length (decimal_digits x)) = (s, e)"
    by (cases "shortest x (length (decimal_digits x))")
  from shortest_exact [OF assms sh] have x: "s * 10 ^ e = x" and z: "0 < s \<or> e = 0" by simp_all
  have d: "decimal_digits s @ replicate e 48 = decimal_digits x"
    using digits_of_product [OF z] x by simp
  have "(2::nat) ^ 53 < 10 ^ 16" by simp
  with assms have "x < 10 ^ 16" by linarith
  then have "length (decimal_digits x) \<le> 16" by (rule digits_length_le) simp
  moreover have "length (decimal_digits s) + e = length (decimal_digits x)"
    using d by (metis length_append length_replicate)
  ultimately have "length (decimal_digits s) + e \<le> 21" by simp
  then show ?thesis using d by (simp add: toString_def sh Let_def)
qed

lemma utf16_exponent: "utf16 ''e+'' = [101, 43]"
  by (simp add: utf16_def)

lemma utf16_hyphen: "utf16 ''-'' = [45]"
  by (simp add: utf16_def)

lemma utf16_Infinity: "utf16 ''Infinity'' = [73, 110, 102, 105, 110, 105, 116, 121]"
  by (simp add: utf16_def)

lemma digit_facts:
  "is_digit c \<Longrightarrow> c \<noteq> 45" "is_digit c \<Longrightarrow> c \<noteq> 101" "is_digit c \<Longrightarrow> c \<noteq> 73"
  "\<not> is_digit 46" "\<not> is_digit 101" "\<not> is_digit 43" "is_digit 48"
  by (simp_all add: is_digit_def)

lemma digits_hd_tl: "hd (decimal_digits s) # tl (decimal_digits s) = decimal_digits s"
  using digits_not_Nil [of s] by simp

text \<open>The three shapes of a printed number.\<close>

lemma toString_shapes:
  obtains (plain) s e where "toString (Finite v) = decimal_digits s @ replicate e 48"
      and "shortest v (length (decimal_digits v)) = (s, e)"
      and "length (decimal_digits s) + e \<le> 21"
    | (short) s e where
      "toString (Finite v) = decimal_digits s @ [101, 43] @ decimal_digits (length (decimal_digits s) + e - 1)"
      and "shortest v (length (decimal_digits v)) = (s, e)"
      and "length (decimal_digits s) = 1"
    | (long) s e where
      "toString (Finite v) =
         (hd (decimal_digits s) # 46 # tl (decimal_digits s)) @ [101, 43]
           @ decimal_digits (length (decimal_digits s) + e - 1)"
      and "shortest v (length (decimal_digits v)) = (s, e)"
proof -
  obtain s e where sh: "shortest v (length (decimal_digits v)) = (s, e)"
    by (cases "shortest v (length (decimal_digits v))")
  show ?thesis
  proof (cases "length (decimal_digits s) + e \<le> 21")
    case True
    then have "toString (Finite v) = decimal_digits s @ replicate e 48"
      by (simp add: toString_def sh Let_def)
    then show ?thesis using sh True by (rule plain)
  next
    case False
    show ?thesis
    proof (cases "length (decimal_digits s) = 1")
      case True
      with False have "toString (Finite v)
          = decimal_digits s @ [101, 43] @ decimal_digits (length (decimal_digits s) + e - 1)"
        by (simp add: toString_def sh Let_def utf16_exponent)
      then show ?thesis using sh True by (rule short)
    next
      case k: False
      with False have "toString (Finite v)
          = (hd (decimal_digits s) # 46 # tl (decimal_digits s)) @ [101, 43]
             @ decimal_digits (length (decimal_digits s) + e - 1)"
        by (simp add: toString_def sh Let_def utf16_exponent)
      then show ?thesis using sh by (rule long)
    qed
  qed
qed

lemma toString_no_hyphen: "45 \<notin> set (toString n)"
proof (cases n)
  case Infinity
  then show ?thesis by (simp add: toString_def utf16_Infinity)
next
  case (Finite v)
  have d: "45 \<notin> set (decimal_digits k)" for k
    using digits_are_digits [of 45 k] digit_facts(1) by blast
  have h: "hd (decimal_digits k) \<noteq> 45" for k
    using d [of k] digits_not_Nil [of k] by (metis hd_in_set)
  have t: "45 \<notin> set (tl (decimal_digits k))" for k
    using d [of k] by (metis list.set_sel(2) digits_not_Nil)
  show ?thesis unfolding Finite
    by (cases v rule: toString_shapes) (simp_all add: d h t)
qed

lemma toString_Finite_hd: "is_digit (hd (toString (Finite v)))"
proof -
  have h: "is_digit (hd (decimal_digits k))" for k
    using digits_are_digits [of _ k] digits_not_Nil [of k] by (metis hd_in_set)
  show ?thesis
    by (cases v rule: toString_shapes) (simp_all add: h digits_not_Nil)
qed

subsection \<open>The printed form determines the number\<close>

lemma denoted_plain:
  assumes "0 < s \<or> e = 0"
  shows "denoted (decimal_digits s @ replicate e 48) = s * 10 ^ e"
proof -
  have "101 \<notin> set (decimal_digits (s * 10 ^ e))"
    using digits_are_digits [of 101] digit_facts(5) by blast
  then show ?thesis
    unfolding digits_of_product [OF assms] by (simp add: denoted_def digits_value_digits)
qed

lemma denoted_exponent:
  assumes "101 \<notin> set M" and "filter is_digit M = decimal_digits s"
  shows "denoted (M @ [101, 43] @ decimal_digits j) = s * 10 ^ (j + 1 - length (decimal_digits s))"
proof -
  have t: "takeWhile (\<lambda>c. c \<noteq> 101) (M @ [101, 43] @ decimal_digits j) = M"
    using assms(1) by (induction M) auto
  have d: "dropWhile (\<lambda>c. c \<noteq> 101) (M @ [101, 43] @ decimal_digits j) = [101, 43] @ decimal_digits j"
    using assms(1) by (induction M) auto
  have m: "101 \<in> set (M @ [101, 43] @ decimal_digits j)" by simp
  show ?thesis
    unfolding denoted_def Let_def t d using m assms(2) by (simp add: digits_value_digits)
qed

lemma denoted_toString:
  assumes "toDouble v = Finite v"
  shows "toDouble (denoted (toString (Finite v))) = Finite v"
proof -
  have no_e: "101 \<notin> set (decimal_digits k)" for k
    using digits_are_digits [of 101 k] digit_facts(5) by blast
  have all_digits: "filter is_digit (decimal_digits k) = decimal_digits k" for k
    using digits_are_digits [of _ k] by (simp add: filter_id_conv)
  show ?thesis
  proof (cases v rule: toString_shapes)
    case (plain s e)
    from shortest_sound [OF assms plain(2)] show ?thesis
      unfolding plain(1) by (simp add: denoted_plain)
  next
    case (short s e)
    from shortest_sound [OF assms short(2)]
    have r: "toDouble (s * 10 ^ e) = Finite v" by simp
    have "denoted (toString (Finite v)) = s * 10 ^ e"
      unfolding short(1)
      using denoted_exponent [where M = "decimal_digits s" and s = s
          and j = "length (decimal_digits s) + e - 1", OF no_e all_digits] short(3)
      by simp
    then show ?thesis using r by simp
  next
    case (long s e)
    from shortest_sound [OF assms long(2)]
    have r: "toDouble (s * 10 ^ e) = Finite v" by simp
    let ?M = "hd (decimal_digits s) # 46 # tl (decimal_digits s)"
    have hd_tl: "hd (decimal_digits s) # tl (decimal_digits s) = decimal_digits s"
      by (rule digits_hd_tl)
    have h: "is_digit (hd (decimal_digits s))"
      using digits_are_digits [of _ s] digits_not_Nil [of s] by (metis hd_in_set)
    have "\<forall>c \<in> set (tl (decimal_digits s)). is_digit c"
      using digits_are_digits [of _ s] list.set_sel(2) [OF digits_not_Nil [of s]] by blast
    then have t: "filter is_digit (tl (decimal_digits s)) = tl (decimal_digits s)"
      by (simp add: filter_id_conv)
    have f: "filter is_digit ?M = decimal_digits s"
      using h t hd_tl by (simp add: digit_facts)
    have "set (decimal_digits s) = insert (hd (decimal_digits s)) (set (tl (decimal_digits s)))"
      using arg_cong [OF hd_tl, of set] by simp
    then have n: "101 \<notin> set ?M" using no_e [of s] by auto
    have k: "0 < length (decimal_digits s)" using digits_not_Nil [of s] by simp
    have "denoted (toString (Finite v)) = s * 10 ^ e"
      unfolding long(1)
      using denoted_exponent [where j = "length (decimal_digits s) + e - 1", OF n f] k by simp
    then show ?thesis using r by simp
  qed
qed

lemma toString_Infinity: "toString Infinity = [73, 110, 102, 105, 110, 105, 116, 121]"
  by (simp add: toString_def utf16_Infinity)

lemma toString_Finite_not_Infinity: "toString (Finite v) \<noteq> toString Infinity"
proof
  assume "toString (Finite v) = toString Infinity"
  then have "hd (toString (Finite v)) = 73" by (simp add: toString_Infinity)
  then show False using toString_Finite_hd [of v] by (simp add: is_digit_def)
qed

lemma toString_inj:
  assumes "is_double a" and "is_double b" and "toString a = toString b"
  shows "a = b"
proof (cases a)
  case Infinity
  show ?thesis
  proof (cases b)
    case (Finite w)
    then show ?thesis using assms(3) Infinity toString_Finite_not_Infinity [of w] by simp
  qed (simp add: Infinity)
next
  case (Finite v)
  show ?thesis
  proof (cases b)
    case Infinity
    then show ?thesis using assms(3) Finite toString_Finite_not_Infinity [of v] by simp
  next
    case w: (Finite w)
    from assms(1,2) have "toDouble v = Finite v" "toDouble w = Finite w"
      by (simp_all add: is_double_def Finite w)
    then have dv: "toDouble (denoted (toString (Finite v))) = Finite v"
      and dw: "toDouble (denoted (toString (Finite w))) = Finite w"
      by (simp_all add: denoted_toString)
    have eq: "toString (Finite v) = toString (Finite w)"
      using assms(3) unfolding Finite w .
    have "Finite v = toDouble (denoted (toString (Finite v)))" by (rule dv [symmetric])
    also have "\<dots> = toDouble (denoted (toString (Finite w)))" by (simp only: eq)
    also have "\<dots> = Finite w" by (rule dw)
    finally show ?thesis unfolding Finite w .
  qed
qed

lemma parseInt_is_double: "is_double (parseInt ds)"
proof (cases "toDouble (digits_value ds)")
  case (Finite v)
  then have "toDouble v = Finite v" by (rule toDouble_idem)
  then show ?thesis by (simp add: parseInt_def is_double_def Finite)
next
  case Infinity
  then show ?thesis by (simp add: parseInt_def is_double_def)
qed

section \<open>The parser against the line format\<close>

text \<open>The loop of \<^verbatim>\<open>parseParticipants\<close> pushes what its body yields, line by line.\<close>

lemma push_loop:
  "foldl (\<lambda>parsed line. case f line of None \<Rightarrow> parsed | Some p \<Rightarrow> parsed @ [p]) acc ls
     = acc @ List.map_filter f ls"
  by (induction ls arbitrary: acc) (auto simp: List.map_filter_simps split: option.splits)

lemma in_set_map_filter:
  "(p \<in> set (List.map_filter f ls)) = (\<exists>l \<in> set ls. f l = Some p)"
  by (induction ls) (auto simp: List.map_filter_simps split: option.splits)

lemma map_filter_append:
  "List.map_filter f (xs @ ys) = List.map_filter f xs @ List.map_filter f ys"
  by (simp add: List.map_filter_def)

subsection \<open>Trimming and splitting\<close>

lemma trim_Nil: "trim [] = []"
  by (simp add: trim_def)

lemma trim_space_Cons: "is_space c \<Longrightarrow> trim (c # l) = trim l"
  by (simp add: trim_def)

lemma trim_snoc_space:
  assumes "is_space c"
  shows "trim (l @ [c]) = trim l"
proof (cases "\<forall>x \<in> set l. is_space x")
  case True
  then have "\<forall>x \<in> set (l @ [c]). is_space x" using assms by simp
  then have "dropWhile is_space (l @ [c]) = []"
    using dropWhile_eq_Nil_conv [of is_space "l @ [c]"] by blast
  moreover have "dropWhile is_space l = []"
    using True dropWhile_eq_Nil_conv [of is_space l] by blast
  ultimately show ?thesis by (simp only: trim_def)
next
  case False
  then have "dropWhile is_space (l @ [c]) = dropWhile is_space l @ [c]"
    by (auto simp: dropWhile_append1)
  then show ?thesis using assms by (simp add: trim_def)
qed

lemma trim_all_space:
  assumes "\<forall>c \<in> set l. is_space c"
  shows "trim l = []"
proof -
  have d: "dropWhile is_space l = []"
    using assms dropWhile_eq_Nil_conv [of is_space l] by blast
  show ?thesis unfolding trim_def d by simp
qed

lemma trim_dropWhile: "trim (dropWhile is_space l) = trim l"
  by (simp add: trim_def dropWhile_idem)

lemma split_nl_not_Nil: "split_nl t \<noteq> []"
  by (induction t) (auto split: list.splits)

lemma split_nl_snoc:
  "split_nl (t @ [c]) =
     (if c = 10 then split_nl t @ [[]]
      else butlast (split_nl t) @ [last (split_nl t) @ [c]])"
proof (induction t)
  case Nil
  then show ?case by simp
next
  case (Cons a t)
  obtain l ls where sp: "split_nl t = l # ls"
    using split_nl_not_Nil [of t] by (cases "split_nl t") auto
  show ?case
  proof (cases "c = 10")
    case True
    then show ?thesis using Cons.IH sp by simp
  next
    case False
    have ne: "butlast (l # ls) @ [last (l # ls) @ [c]] \<noteq> []" by simp
    show ?thesis
    proof (cases ls)
      case Nil
      then show ?thesis using Cons.IH sp False by simp
    next
      case (Cons l' ls')
      then show ?thesis using Cons.IH sp False by simp
    qed
  qed
qed

lemma parse_line_Nil: "parse_line L [] = None"
  by (simp add: parse_line_def trim_def match_line_def)

lemma parse_line_blank: "trim l = [] \<Longrightarrow> parse_line L l = None"
  by (simp add: parse_line_def match_line_def)

lemma parse_line_space_Cons: "is_space c \<Longrightarrow> parse_line L (c # l) = parse_line L l"
  by (simp add: parse_line_def trim_space_Cons)

lemma parse_line_snoc_space: "is_space c \<Longrightarrow> parse_line L (l @ [c]) = parse_line L l"
  by (simp add: parse_line_def trim_snoc_space)

lemma lines_space_Cons:
  assumes "is_space c"
  shows "List.map_filter (parse_line L) (split_nl (c # t)) = List.map_filter (parse_line L) (split_nl t)"
proof (cases "c = 10")
  case True
  then show ?thesis by (simp add: List.map_filter_simps parse_line_Nil)
next
  case False
  obtain l ls where sp: "split_nl t = l # ls"
    using split_nl_not_Nil [of t] by (cases "split_nl t") auto
  show ?thesis
    using False sp assms by (simp add: List.map_filter_simps parse_line_space_Cons)
qed

lemma lines_snoc_space:
  assumes "is_space c"
  shows "List.map_filter (parse_line L) (split_nl (t @ [c])) = List.map_filter (parse_line L) (split_nl t)"
proof (cases "c = 10")
  case True
  then show ?thesis
    by (simp add: split_nl_snoc map_filter_append List.map_filter_simps parse_line_Nil)
next
  case False
  have "split_nl t = butlast (split_nl t) @ [last (split_nl t)]"
    using split_nl_not_Nil [of t] by simp
  then have "List.map_filter (parse_line L) (split_nl t)
      = List.map_filter (parse_line L) (butlast (split_nl t)) @ List.map_filter (parse_line L) [last (split_nl t)]"
    by (metis map_filter_append)
  then show ?thesis
    using False assms
    by (simp add: split_nl_snoc map_filter_append List.map_filter_simps parse_line_snoc_space)
qed

lemma lines_drop_leading:
  "List.map_filter (parse_line L) (split_nl (dropWhile is_space t)) = List.map_filter (parse_line L) (split_nl t)"
proof (induction t)
  case Nil
  then show ?case by simp
next
  case (Cons a t)
  show ?case
  proof (cases "is_space a")
    case True
    then have "dropWhile is_space (a # t) = dropWhile is_space t" by simp
    then show ?thesis using Cons.IH lines_space_Cons [OF True, where t = t and L = L] by (simp only:)
  next
    case False
    then have "dropWhile is_space (a # t) = a # t" by simp
    then show ?thesis by (simp only:)
  qed
qed

lemma lines_drop_trailing:
  "List.map_filter (parse_line L) (split_nl (rev (dropWhile is_space (rev t))))
     = List.map_filter (parse_line L) (split_nl t)"
proof (induction t rule: rev_induct)
  case Nil
  then show ?case by simp
next
  case (snoc a t)
  show ?case
  proof (cases "is_space a")
    case True
    then have "rev (dropWhile is_space (rev (t @ [a]))) = rev (dropWhile is_space (rev t))" by simp
    then show ?thesis using snoc.IH lines_snoc_space [OF True, where t = t and L = L] by (simp only:)
  next
    case False
    then have "rev (dropWhile is_space (rev (t @ [a]))) = t @ [a]" by simp
    then show ?thesis by (simp only:)
  qed
qed

lemma lines_trim:
  "List.map_filter (parse_line L) (split_nl (trim t)) = List.map_filter (parse_line L) (split_nl t)"
  by (simp add: trim_def lines_drop_trailing lines_drop_leading)

lemma lines_nonblank:
  "List.map_filter (parse_line L) (filter (\<lambda>line. trim line \<noteq> []) ls) = List.map_filter (parse_line L) ls"
proof (induction ls)
  case Nil
  then show ?case by simp
next
  case (Cons l ls)
  show ?case
  proof (cases "trim l = []")
    case True
    then show ?thesis using Cons.IH by (simp add: List.map_filter_simps parse_line_blank)
  next
    case False
    then show ?thesis using Cons.IH by (simp add: List.map_filter_simps split: option.splits)
  qed
qed

lemma parseParticipants_lines:
  "parseParticipants L text = List.map_filter (parse_line L) (split_nl text)"
  by (simp add: parseParticipants_def push_loop lines_nonblank lines_trim)

subsection \<open>The regular expression\<close>

lemma digit_not_space: "is_digit c \<Longrightarrow> \<not> is_space c"
  by (auto simp: is_digit_def is_space_def)

lemma hyphen_not_digit: "\<not> is_digit 45"
  by (simp add: is_digit_def)

lemma hyphen_not_space: "\<not> is_space 45"
  by (simp add: is_space_def)

lemma span_prefix:
  assumes "\<forall>x \<in> set xs. P x" and "ys = [] \<or> \<not> P (hd ys)"
  shows "takeWhile P (xs @ ys) = xs" and "dropWhile P (xs @ ys) = ys"
proof -
  have t: "takeWhile P ys = []" using assms(2) by (cases ys) auto
  have d: "dropWhile P ys = ys" using assms(2) by (cases ys) auto
  show "takeWhile P (xs @ ys) = xs" using assms(1) t by (simp add: takeWhile_append2)
  show "dropWhile P (xs @ ys) = ys" using assms(1) d by (simp add: dropWhile_append2)
qed

lemma match_line_hyphen:
  assumes "takeWhile is_digit s \<noteq> []"
    and "dropWhile is_space (dropWhile is_digit s) = 45 # r"
  shows "match_line s =
     (if \<exists>c \<in> set (dropWhile is_space r). is_line_terminator c then None
      else if dropWhile is_space r \<noteq> [] then Some (takeWhile is_digit s, dropWhile is_space r)
      else if takeWhile is_space r \<noteq> [] \<and> \<not> is_line_terminator (last (takeWhile is_space r))
        then Some (takeWhile is_digit s, [last (takeWhile is_space r)])
      else None)"
  unfolding match_line_def Let_def assms(2) using assms(1) by simp

lemma match_line_sound:
  assumes "match_line s = Some (ds, nm)"
  shows "line_pattern s ds nm"
proof -
  let ?w1 = "takeWhile is_space (dropWhile is_digit s)"
  from assms have tne: "takeWhile is_digit s \<noteq> []"
    by (auto simp: match_line_def Let_def split: if_splits list.splits)
  from assms obtain r where r: "dropWhile is_space (dropWhile is_digit s) = 45 # r"
    by (auto simp: match_line_def Let_def split: if_splits list.splits)
  note m = match_line_hyphen [OF tne r]
  from assms have ds: "ds = takeWhile is_digit s"
    unfolding m by (auto split: if_splits)
  have s: "s = ds @ ?w1 @ 45 # r"
  proof -
    have "s = takeWhile is_digit s @ dropWhile is_digit s" by simp
    also have "dropWhile is_digit s = ?w1 @ dropWhile is_space (dropWhile is_digit s)" by simp
    finally show ?thesis using ds r by simp
  qed
  have dne: "ds \<noteq> []" using ds tne by simp
  have dig: "list_all is_digit ds" using ds by (auto simp: list_all_iff dest: set_takeWhileD)
  have w1: "list_all is_space ?w1" by (auto simp: list_all_iff dest: set_takeWhileD)
  from assms have nolt: "\<not> (\<exists>c \<in> set (dropWhile is_space r). is_line_terminator c)"
    unfolding m by (auto split: if_splits)
  show ?thesis
  proof (cases "dropWhile is_space r = []")
    case False
    from assms have nm: "nm = dropWhile is_space r"
      unfolding m using nolt False by (simp del: dropWhile_eq_Nil_conv split: if_splits)
    have "r = takeWhile is_space r @ nm" using nm by simp
    with s have "s = ds @ ?w1 @ 45 # takeWhile is_space r @ nm" by simp
    moreover have "list_all is_space (takeWhile is_space r)"
      by (auto simp: list_all_iff dest: set_takeWhileD)
    moreover have "nm \<noteq> []" using False nm by simp
    moreover have "list_all (\<lambda>c. \<not> is_line_terminator c) nm"
      using nolt nm by (simp add: list_all_iff)
    ultimately show ?thesis using dne dig w1 unfolding line_pattern_def by blast
  next
    case True
    then have all: "\<forall>c \<in> set r. is_space c"
      using dropWhile_eq_Nil_conv [of is_space r] by blast
    then have tw: "takeWhile is_space r = r" by (simp add: takeWhile_eq_all_conv)
    have m': "match_line s =
        (if r \<noteq> [] \<and> \<not> is_line_terminator (last r) then Some (takeWhile is_digit s, [last r])
         else None)"
      unfolding m True tw by simp
    from assms have rne: "r \<noteq> []" and lt: "\<not> is_line_terminator (last r)"
      and nm: "nm = [last r]"
      unfolding m' by (auto split: if_splits)
    have "r = butlast r @ nm" using rne nm by simp
    with s have "s = ds @ ?w1 @ 45 # butlast r @ nm" by simp
    moreover have "list_all is_space (butlast r)"
      using all by (auto simp: list_all_iff dest: in_set_butlastD)
    moreover have "nm \<noteq> []" using nm by simp
    moreover have "list_all (\<lambda>c. \<not> is_line_terminator c) nm" using nm lt by simp
    ultimately show ?thesis using dne dig w1 unfolding line_pattern_def by blast
  qed
qed

lemma match_line_complete:
  assumes "line_pattern s ds rest"
  shows "\<exists>nm. match_line s = Some (ds, nm) \<and> trim nm = trim rest"
proof -
  from assms obtain w1 w2 where
    s: "s = ds @ w1 @ 45 # w2 @ rest" and ds: "ds \<noteq> []" and dig: "\<forall>c \<in> set ds. is_digit c"
    and w1: "\<forall>c \<in> set w1. is_space c" and w2: "\<forall>c \<in> set w2. is_space c"
    and rest: "rest \<noteq> []" and nolt: "\<forall>c \<in> set rest. \<not> is_line_terminator c"
    unfolding line_pattern_def by (auto simp: list_all_iff)
  let ?tail = "w1 @ 45 # w2 @ rest"
  have "?tail = [] \<or> \<not> is_digit (hd ?tail)"
    using w1 digit_not_space hyphen_not_digit by (cases w1) auto
  from span_prefix [OF dig this] s
  have t1: "takeWhile is_digit s = ds" and d1: "dropWhile is_digit s = ?tail" by simp_all
  have "45 # w2 @ rest = [] \<or> \<not> is_space (hd (45 # w2 @ rest))"
    using hyphen_not_space by simp
  from span_prefix(2) [OF w1 this]
  have d2: "dropWhile is_space ?tail = 45 # w2 @ rest" .
  have d3: "dropWhile is_space (w2 @ rest) = dropWhile is_space rest"
    using w2 by (simp add: dropWhile_append2)
  have t3: "takeWhile is_space (w2 @ rest) = w2 @ takeWhile is_space rest"
    using w2 by (simp add: takeWhile_append2)
  have nolt': "\<not> (\<exists>c \<in> set (dropWhile is_space rest). is_line_terminator c)"
    using nolt by (auto dest: set_dropWhileD)
  have tne: "takeWhile is_digit s \<noteq> []" using t1 ds by simp
  have hy: "dropWhile is_space (dropWhile is_digit s) = 45 # (w2 @ rest)"
    using d1 d2 by simp
  note m = match_line_hyphen [OF tne hy]
  show ?thesis
  proof (cases "dropWhile is_space rest = []")
    case False
    have "match_line s = Some (ds, dropWhile is_space rest)"
      unfolding m d3 t1 using nolt' False by (simp del: dropWhile_eq_Nil_conv)
    then show ?thesis by (simp add: trim_dropWhile)
  next
    case True
    then have all: "\<forall>c \<in> set rest. is_space c"
      using dropWhile_eq_Nil_conv [of is_space rest] by blast
    then have tw: "takeWhile is_space rest = rest" by (simp add: takeWhile_eq_all_conv)
    have l: "last (w2 @ rest) = last rest" using rest by simp
    have nl: "\<not> is_line_terminator (last rest)" using nolt rest by simp
    have "match_line s = Some (ds, [last rest])"
      unfolding m d3 t3 t1 True tw l using rest nl by simp
    moreover have "trim [last rest] = []"
      using all rest by (intro trim_all_space) simp
    moreover have "trim rest = []" using all by (rule trim_all_space)
    ultimately show ?thesis by simp
  qed
qed

subsection \<open>White space in the key\<close>

lemma replace_ws_no_space: "c \<in> set (replace_ws s) \<Longrightarrow> \<not> is_space c"
proof (induction s rule: replace_ws.induct)
  case 1
  then show ?case by simp
next
  case (2 x cs)
  show ?case
  proof (cases "is_space x")
    case True
    with "2.prems" have "c = 45 \<or> c \<in> set (replace_ws (dropWhile is_space cs))" by simp
    then show ?thesis using "2.IH"(1) [OF True] hyphen_not_space by blast
  next
    case False
    with "2.prems" have "c = x \<or> c \<in> set (replace_ws cs)" by simp
    then show ?thesis using "2.IH"(2) [OF False] False by blast
  qed
qed

lemma replace_ws_plain: "\<forall>c \<in> set s. \<not> is_space c \<Longrightarrow> replace_ws s = s"
  by (induction s) simp_all

lemma replace_ws_run:
  assumes "\<forall>c \<in> set a. \<not> is_space c" and "w \<noteq> []" and "\<forall>c \<in> set w. is_space c"
    and "b = [] \<or> \<not> is_space (hd b)"
  shows "replace_ws (a @ w @ b) = a @ 45 # replace_ws b"
using assms(1) proof (induction a)
  case Nil
  obtain c w' where w: "w = c # w'" using assms(2) by (cases w) auto
  have "dropWhile is_space (w' @ b) = b"
    using span_prefix(2) [of w' is_space b] assms(3,4) w by simp
  then show ?case using w assms(3) by (simp del: dropWhile_append)
next
  case (Cons x a)
  then show ?case by simp
qed

subsection \<open>The notions of the specification and the functions of the code\<close>

lemma trim_trimmed: "trimmed s (trim s)"
proof -
  let ?u = "dropWhile is_space s"
  let ?t = "rev (dropWhile is_space (rev ?u))"
  let ?b = "rev (takeWhile is_space (rev ?u))"
  have "rev ?u = takeWhile is_space (rev ?u) @ dropWhile is_space (rev ?u)" by simp
  then have "rev (rev ?u) = rev (takeWhile is_space (rev ?u) @ dropWhile is_space (rev ?u))"
    by (simp only:)
  then have u: "?u = ?t @ ?b" by (simp only: rev_rev_ident rev_append)
  have "s = takeWhile is_space s @ ?u" by simp
  with u have s: "s = takeWhile is_space s @ ?t @ ?b" by (simp only:)
  have a: "list_all is_space (takeWhile is_space s)"
    by (auto simp: list_all_iff dest: set_takeWhileD)
  have b: "list_all is_space ?b"
    by (auto simp: list_all_iff dest: set_takeWhileD)
  have c: "?t = [] \<or> (\<not> is_space (hd ?t) \<and> \<not> is_space (last ?t))"
  proof (cases "?t = []")
    case True
    then show ?thesis by (simp only: simp_thms)
  next
    case False
    then have ne: "dropWhile is_space (rev ?u) \<noteq> []" by (simp del: dropWhile_eq_Nil_conv)
    have l: "\<not> is_space (last ?t)"
      using ne hd_dropWhile [of is_space "rev ?u"] by (simp only: last_rev) blast
    have une: "?u \<noteq> []" using u False by (metis append_is_Nil_conv)
    have "hd ?u = hd ?t" using u False hd_append2 [of ?t ?b] by metis
    moreover have "\<not> is_space (hd ?u)" using une hd_dropWhile [of is_space s] by blast
    ultimately show ?thesis using l by simp
  qed
  show ?thesis unfolding trimmed_def trim_def using s a b c by blast
qed

lemma trimmed_trim:
  assumes "trimmed s t"
  shows "t = trim s"
proof -
  from assms obtain a b where s: "s = a @ t @ b" and a: "\<forall>c \<in> set a. is_space c"
    and b: "\<forall>c \<in> set b. is_space c"
    and t: "t = [] \<or> (\<not> is_space (hd t) \<and> \<not> is_space (last t))"
    unfolding trimmed_def by (auto simp: list_all_iff)
  show ?thesis
  proof (cases "t = []")
    case True
    then have "\<forall>c \<in> set s. is_space c" using s a b by auto
    then show ?thesis using True trim_all_space by simp
  next
    case False
    then have h: "\<not> is_space (hd t)" and l: "\<not> is_space (last t)" using t by simp_all
    have "t @ b = [] \<or> \<not> is_space (hd (t @ b))" using False h by simp
    from span_prefix(2) [OF a this] have d1: "dropWhile is_space s = t @ b" unfolding s .
    have "rev t = [] \<or> \<not> is_space (hd (rev t))" using False l by (simp add: hd_rev)
    moreover have "\<forall>c \<in> set (rev b). is_space c" using b by simp
    ultimately have "dropWhile is_space (rev b @ rev t) = rev t"
      by (rule span_prefix(2) [rotated])
    then have "rev (dropWhile is_space (rev (t @ b))) = t" by simp
    then show ?thesis unfolding trim_def d1 by simp
  qed
qed

lemma trimmed_iff: "trimmed s t \<longleftrightarrow> t = trim s"
  using trim_trimmed trimmed_trim by blast

lemma trim_ends: "trim s \<noteq> [] \<Longrightarrow> \<not> is_space (hd (trim s)) \<and> \<not> is_space (last (trim s))"
  using trim_trimmed [of s] unfolding trimmed_def by blast

lemma split_nl_no_lf: "l \<in> set (split_nl t) \<Longrightarrow> 10 \<notin> set l"
proof (induction t arbitrary: l)
  case Nil
  then show ?case by simp
next
  case (Cons c t)
  obtain l' ls where sp: "split_nl t = l' # ls"
    using split_nl_not_Nil [of t] by (cases "split_nl t") auto
  show ?case
  proof (cases "c = 10")
    case True
    with Cons.prems have "l = [] \<or> l \<in> set (split_nl t)" by simp
    then show ?thesis using Cons.IH by auto
  next
    case False
    with Cons.prems sp have "l = c # l' \<or> l \<in> set ls" by simp
    then show ?thesis using Cons.IH [of l'] Cons.IH [of l] sp False by auto
  qed
qed

lemma join_split: "join_lines (split_nl t) = t"
proof (induction t)
  case Nil
  then show ?case by simp
next
  case (Cons c t)
  obtain l' ls where sp: "split_nl t = l' # ls"
    using split_nl_not_Nil [of t] by (cases "split_nl t") auto
  show ?case
  proof (cases "c = 10")
    case True
    then show ?thesis using Cons.IH sp by simp
  next
    case False
    then show ?thesis using Cons.IH sp by (cases ls) simp_all
  qed
qed

lemma split_nl_line: "10 \<notin> set l \<Longrightarrow> split_nl l = [l]"
  by (induction l) auto

lemma split_nl_line_lf: "10 \<notin> set l \<Longrightarrow> split_nl (l @ 10 # t) = l # split_nl t"
  by (induction l) auto

lemma split_join:
  "ls \<noteq> [] \<Longrightarrow> \<forall>l \<in> set ls. 10 \<notin> set l \<Longrightarrow> split_nl (join_lines ls) = ls"
proof (induction ls rule: join_lines.induct)
  case 1
  then show ?case by simp
next
  case (2 l)
  then show ?case by (simp add: split_nl_line)
next
  case (3 l v va)
  then show ?case by (simp add: split_nl_line_lf)
qed

lemma lines_of_iff: "lines_of text ls \<longleftrightarrow> ls = split_nl text"
  unfolding lines_of_def
  using split_nl_not_Nil [of "text"] split_nl_no_lf [of _ "text"] join_split [of "text"]
    split_join [of ls]
  by auto

lemma decimal_snoc: "decimal (ds @ [c]) = 10 * decimal ds + (c - 48)"
proof -
  have "(\<Sum>i < length ds. ((ds @ [c]) ! i - 48) * 10 ^ (Suc (length ds) - Suc i))
      = (\<Sum>i < length ds. 10 * ((ds ! i - 48) * 10 ^ (length ds - Suc i)))"
  proof (rule sum.cong)
    fix i assume "i \<in> {..<length ds}"
    then have i: "i < length ds" by simp
    then have "Suc (length ds) - Suc i = Suc (length ds - Suc i)" by simp
    then show "((ds @ [c]) ! i - 48) * 10 ^ (Suc (length ds) - Suc i)
        = 10 * ((ds ! i - 48) * 10 ^ (length ds - Suc i))"
      using i by (simp add: nth_append)
  qed simp
  then show ?thesis
    unfolding decimal_def by (simp add: sum_distrib_left)
qed

lemma decimal_digits_value: "decimal ds = digits_value ds"
proof (induction ds rule: rev_induct)
  case Nil
  then show ?case by (simp add: decimal_def digits_value_def)
next
  case (snoc c ds)
  then show ?case by (simp only: decimal_snoc digits_value_snoc)
qed

lemma numeral_of_digits: "numeral_of n (decimal_digits n)"
proof -
  have "decimal_digits n = [48] \<or> hd (decimal_digits n) \<noteq> 48"
  proof (cases "n = 0")
    case True
    then show ?thesis by (simp add: digits_small)
  next
    case False
    then show ?thesis using digits_hd [of n] by simp
  qed
  then show ?thesis
    unfolding numeral_of_def
    using digits_not_Nil [of n] digits_are_digits [of _ n] digits_value_digits [of n]
    by (simp add: decimal_digits_value list_all_iff)
qed

lemma hyphenated_start: "hyphenated s t \<Longrightarrow> s \<noteq> [] \<and> \<not> is_space (hd s)"
  by (induction rule: hyphenated.induct) (auto simp: list_all_iff)

lemma hyphenated_replace: "hyphenated s t \<Longrightarrow> t = replace_ws s"
proof (induction rule: hyphenated.induct)
  case (word w)
  then show ?case by (simp add: replace_ws_plain list_all_iff)
next
  case (gap w g s t)
  from hyphenated_start [OF gap.hyps(5)] have "s = [] \<or> \<not> is_space (hd s)" by simp
  from replace_ws_run [OF _ gap.hyps(3) _ this, of w] gap.hyps(2,4) gap.IH
  show ?case by (simp add: list_all_iff)
qed

lemma replace_hyphenated:
  "s \<noteq> [] \<Longrightarrow> \<not> is_space (hd s) \<Longrightarrow> \<not> is_space (last s) \<Longrightarrow> hyphenated s (replace_ws s)"
proof (induction "length s" arbitrary: s rule: less_induct)
  case less
  define w where "w = takeWhile (\<lambda>c. \<not> is_space c) s"
  define r where "r = dropWhile (\<lambda>c. \<not> is_space c) s"
  have s: "s = w @ r" unfolding w_def r_def by simp
  have wne: "w \<noteq> []" unfolding w_def using less.prems(1,2) by (cases s) auto
  have w: "\<forall>c \<in> set w. \<not> is_space c" unfolding w_def by (auto dest: set_takeWhileD)
  show ?case
  proof (cases "r = []")
    case True
    then have sw: "s = w" using s by simp
    have "hyphenated w w"
      using wne w by (intro hyphenated.word) (simp_all add: list_all_iff)
    moreover have "replace_ws w = w" using w by (rule replace_ws_plain)
    ultimately show ?thesis unfolding sw by simp
  next
    case False
    define g where "g = takeWhile is_space r"
    define s' where "s' = dropWhile is_space r"
    have r: "r = g @ s'" unfolding g_def s'_def by simp
    have hr: "is_space (hd r)"
      using False hd_dropWhile [of "\<lambda>c. \<not> is_space c" s] unfolding r_def by blast
    have gne: "g \<noteq> []" unfolding g_def using False hr by (cases r) auto
    have g: "\<forall>c \<in> set g. is_space c" unfolding g_def by (auto dest: set_takeWhileD)
    have ss: "s = w @ g @ s'" using s r by simp
    have s'ne: "s' \<noteq> []"
    proof
      assume "s' = []"
      then have "last s = last g" using ss gne by simp
      moreover have "last g \<in> set g" using gne by simp
      ultimately show False using g less.prems(3) by metis
    qed
    have hs': "\<not> is_space (hd s')"
      using s'ne hd_dropWhile [of is_space r] unfolding s'_def by blast
    have ls': "last s' = last s" using ss s'ne by simp
    have "length s' < length s" using ss wne by (cases w) simp_all
    from less.hyps [OF this s'ne hs'] ls' less.prems(3)
    have ih: "hyphenated s' (replace_ws s')" by simp
    have "hyphenated (w @ g @ s') (w @ 45 # replace_ws s')"
      using wne w gne g ih by (intro hyphenated.gap) (simp_all add: list_all_iff)
    moreover have "replace_ws (w @ g @ s') = w @ 45 # replace_ws s'"
      using w gne g hs' by (intro replace_ws_run) simp_all
    ultimately show ?thesis unfolding ss by (simp only:)
  qed
qed

lemma hyphenated_trim:
  "trim s \<noteq> [] \<Longrightarrow> hyphenated (trim s) h \<longleftrightarrow> h = replace_ws (trim s)"
  using hyphenated_replace [of "trim s" h] replace_hyphenated [of "trim s"] trim_ends [of s]
  by blast

subsection \<open>The loop body against the specification of a line\<close>

lemma parse_line_iff_entry: "(parse_line L line = Some p) = entry_of L line p"
proof
  assume pl: "parse_line L line = Some p"
  then obtain ds nm where m: "match_line (trim line) = Some (ds, nm)"
    by (auto simp: parse_line_def split: option.splits)
  with pl have f: "trim nm \<noteq> []" "number p = parseInt ds" "name p = trim nm"
    "ident p = toString (number p) @ 45 # L (replace_ws (trim nm))"
    by (auto simp: parse_line_def Let_def utf16_hyphen split: if_splits)
  have n: "number p = toDouble (decimal ds)"
    using f(2) by (simp add: parseInt_def decimal_digits_value)
  have h: "hyphenated (trim nm) (replace_ws (trim nm))"
    using hyphenated_trim [OF f(1)] by simp
  from match_line_sound [OF m] f n h trim_trimmed [of line] trim_trimmed [of nm]
  show "entry_of L line p"
    unfolding entry_of_def by blast
next
  assume "entry_of L line p"
  then obtain t ds rest nm h where t: "trimmed line t" and lp: "line_pattern t ds rest"
    and nm: "trimmed rest nm" and ne: "nm \<noteq> []"
    and f: "number p = toDouble (decimal ds)" "name p = nm" "hyphenated nm h"
      "ident p = toString (number p) @ 45 # L h"
    unfolding entry_of_def by blast
  have t': "t = trim line" using t by (rule trimmed_trim)
  have nm': "nm = trim rest" using nm by (rule trimmed_trim)
  have h: "h = replace_ws nm" using f(3) by (rule hyphenated_replace)
  from match_line_complete [OF lp] obtain nm0 where
    m: "match_line (trim line) = Some (ds, nm0)" and tr: "trim nm0 = trim rest"
    unfolding t' by blast
  have tn: "trim nm0 \<noteq> []" using tr ne nm' by simp
  have "parse_line L line = Some \<lparr>number = parseInt ds, name = trim nm0,
      ident = toString (parseInt ds) @ 45 # L (replace_ws (trim nm0))\<rparr>"
    unfolding parse_line_def m using tn by (simp add: Let_def utf16_hyphen)
  moreover have "parseInt ds = number p"
    unfolding f(1) parseInt_def decimal_digits_value ..
  moreover have "trim nm0 = name p" unfolding f(2) nm' tr ..
  moreover have "ident p = toString (number p) @ 45 # L (replace_ws (name p))"
    unfolding f(4) h f(2) ..
  ultimately show "parse_line L line = Some p" by (cases p) simp
qed

lemma entry_of_unique: "entry_of L line p \<Longrightarrow> entry_of L line q \<Longrightarrow> p = q"
  using parse_line_iff_entry [of L line p] parse_line_iff_entry [of L line q] by simp

lemma entries_of_lines:
  "list_all2 (entry_of L) (filter (\<lambda>line. \<exists>p. entry_of L line p) ls)
     (List.map_filter (parse_line L) ls)"
proof (induction ls)
  case Nil
  then show ?case by (simp add: List.map_filter_simps)
next
  case (Cons l ls)
  show ?case
  proof (cases "parse_line L l")
    case None
    then have "\<not> (\<exists>p. entry_of L l p)" using parse_line_iff_entry [of L l] by simp
    then have "filter (\<lambda>line. \<exists>p. entry_of L line p) (l # ls)
        = filter (\<lambda>line. \<exists>p. entry_of L line p) ls"
      by (subst filter.simps) (simp only: if_False)
    then show ?thesis using None Cons.IH by (simp add: List.map_filter_simps)
  next
    case (Some p)
    then have e: "entry_of L l p" using parse_line_iff_entry [of L l p] by simp
    then have "\<exists>p. entry_of L l p" by blast
    then have "filter (\<lambda>line. \<exists>p. entry_of L line p) (l # ls)
        = l # filter (\<lambda>line. \<exists>p. entry_of L line p) ls"
      by (subst filter.simps) (simp only: if_True)
    then show ?thesis using Some e Cons.IH by (simp add: List.map_filter_simps)
  qed
qed

lemma exact_numbers:
  "m < 2 ^ 53 \<Longrightarrow> toDouble m = Finite m \<and> numeral_of m (toString (Finite m))"
  by (simp add: toDouble_exact toString_exact numeral_of_digits)

subsection \<open>Running the parser\<close>

lemmas string_eval =
  utf16_def trim_def is_space_def is_digit_def is_line_terminator_def match_line_def
  parse_line_def parseInt_def digits_value_def ascii_lower_def Let_def
  List.map_filter_simps digits_small

lemma parse_example:
  "parseParticipants ascii_lower (utf16 ''1 - Alice\<newline>2 - Bob'') = [alice, bob]"
  unfolding alice_def bob_def parseParticipants_lines
  by (simp add: string_eval toDouble_exact toString_exact)

lemma parse_line_example: "parse_line ascii_lower (utf16 ''1 - Alice'') = Some alice"
  unfolding alice_def
  by (simp add: string_eval toDouble_exact toString_exact)

lemma shift_1e21: "significand_shift 1000000000000000000000 = 17"
  by (rule shift_unique) simp_all

lemma toDouble_1e21: "toDouble 1000000000000000000000 = Finite 1000000000000000000000"
  by (rule toDouble_aligned [OF shift_1e21]) simp_all

lemma shift_1e22: "significand_shift 10000000000000000000000 = 21"
  by (rule shift_unique) simp_all

lemma toDouble_1e22: "toDouble 10000000000000000000000 = Finite 10000000000000000000000"
  by (rule toDouble_aligned [OF shift_1e22]) simp_all

lemma shift_2e21: "significand_shift 2000000000000000000000 = 18"
  by (rule shift_unique) simp_all

lemma toDouble_2e21: "toDouble 2000000000000000000000 = Finite 2000000000000000000000"
  by (rule toDouble_aligned [OF shift_2e21]) simp_all

lemma shift_2p53: "significand_shift 9007199254740993 = 1"
  by (rule shift_unique) simp_all

lemma toDouble_2p53: "toDouble 9007199254740993 = Finite 9007199254740992"
  unfolding toDouble_def shift_2p53 by (simp add: Let_def)


lemma digits_1e21: "length (decimal_digits 1000000000000000000000) = 22"
  by (simp add: digits_small digits_large)

lemma candidates_1e21_22: "candidates 1000000000000000000000 22 = []"
  unfolding candidates_def by (simp add: toDouble_1e22)

lemma candidates_1e21_21: "candidates 1000000000000000000000 21 = [1]"
  unfolding candidates_def by (simp add: toDouble_1e21 toDouble_2e21)

lemma shortest_1e21: "shortest 1000000000000000000000 22 = (1, 21)"
  apply (subst shortest.simps)
  apply (simp only: candidates_1e21_22 closest_def list.case option.case)
  apply (subst shortest.simps)
  apply (simp add: candidates_1e21_21 closest_def)
  done

lemma toString_1e21: "toString (Finite 1000000000000000000000) = utf16 ''1e+21''"
  unfolding toString_def jsnumber.case digits_1e21 shortest_1e21
  by (simp add: digits_small digits_large Let_def utf16_def)

lemma parse_1e21:
  "parseParticipants ascii_lower (utf16 ''1000000000000000000000 - x'') =
     [\<lparr>number = Finite 1000000000000000000000, name = utf16 ''x'', ident = utf16 ''1e+21-x''\<rparr>]"
  unfolding parseParticipants_lines
  by (simp add: string_eval toDouble_1e21 toString_1e21)

lemma parse_2p53:
  "map number (parseParticipants ascii_lower (utf16 ''9007199254740993 - y'')) =
     [Finite 9007199254740992]"
  unfolding parseParticipants_lines
  by (simp add: string_eval toDouble_2p53)

lemma decimal_2p53: "decimal (utf16 ''9007199254740993'') = 9007199254740993"
  unfolding decimal_digits_value by (simp add: utf16_def digits_value_def)

lemma parse_line_separator:
  "parseParticipants ascii_lower (utf16 ''1 - a'' @ [0x2028] @ utf16 ''b'') = []"
  unfolding parseParticipants_lines
  by (simp add: string_eval)

lemma numeral_1e21: "numeral_of 1000000000000000000000 (utf16 ''1000000000000000000000'')"
  unfolding numeral_of_def decimal_digits_value
  by (simp add: utf16_def digits_value_def is_digit_def)

subsection \<open>The parser contract\<close>

text \<open>
  Claim C1. Every text splits into lines, the pieces between its line feeds. The parser
  returns exactly the participants of the lines that, once trimmed, have the format
  \<^verbatim>\<open><integer><optional whitespace>-<optional whitespace><rest-of-line>\<close>, with a
  remainder that holds no line terminator and is not empty after trimming, in the order of
  the lines; the other lines are dropped. The record of a line holds the double of the
  integer written, the trimmed remainder, and the key made of the printed number, a
  hyphen, and the name in lower case with every run of white space replaced by one
  hyphen. A line determines its record, so parsing the same text again gives the same
  keys. Below \<open>2 ^ 53\<close> the double is the integer itself and is printed as its decimal
  numeral.
\<close>

theorem parser_returns_matching_lines:
  "(\<exists>ls. lines_of text ls) \<and>
   (\<forall>ls. lines_of text ls \<longrightarrow>
      list_all2 (entry_of L) (filter (\<lambda>line. \<exists>p. entry_of L line p) ls)
        (parseParticipants L text)) \<and>
   (\<forall>line p q. entry_of L line p \<longrightarrow> entry_of L line q \<longrightarrow> p = q) \<and>
   (\<forall>m < 2 ^ 53. toDouble m = Finite m \<and> numeral_of m (toString (Finite m)))"
proof (intro conjI allI impI)
  show "\<exists>ls. lines_of text ls" using lines_of_iff by blast
next
  fix ls assume "lines_of text ls"
  then have "ls = split_nl text" by (simp only: lines_of_iff)
  then show "list_all2 (entry_of L) (filter (\<lambda>line. \<exists>p. entry_of L line p) ls)
      (parseParticipants L text)"
    using entries_of_lines [of L "split_nl text"] by (simp add: parseParticipants_lines)
next
  fix line p q assume "entry_of L line p" "entry_of L line q"
  then show "p = q" by (rule entry_of_unique)
next
  fix m :: nat assume "m < 2 ^ 53"
  then show "toDouble m = Finite m" by (rule toDouble_exact)
next
  fix m :: nat assume "m < 2 ^ 53"
  then show "numeral_of m (toString (Finite m))" using exact_numbers by blast
qed

lemma lines_example:
  "lines_of (utf16 ''1 - Alice\<newline>2 - Bob'') [utf16 ''1 - Alice'', utf16 ''2 - Bob'']"
  unfolding lines_of_iff by (simp add: utf16_def)

theorem parser_returns_matching_lines_witness:
  "lines_of (utf16 ''1 - Alice\<newline>2 - Bob'') [utf16 ''1 - Alice'', utf16 ''2 - Bob''] \<and>
   entry_of ascii_lower (utf16 ''1 - Alice'') alice \<and>
   {p. entry_of ascii_lower (utf16 ''1 - Alice'') p} = {alice} \<and>
   parseParticipants ascii_lower (utf16 ''1 - Alice\<newline>2 - Bob'') = [alice, bob] \<and>
   list_all2 (entry_of ascii_lower)
     (filter (\<lambda>line. \<exists>p. entry_of ascii_lower line p) [utf16 ''1 - Alice'', utf16 ''2 - Bob''])
     [alice, bob] \<and>
   toDouble 7 = Finite 7 \<and> numeral_of 7 (toString (Finite 7)) \<and> toString (Finite 7) = utf16 ''7''"
proof -
  have e: "entry_of ascii_lower (utf16 ''1 - Alice'') alice"
    using parse_line_example parse_line_iff_entry [of ascii_lower "utf16 ''1 - Alice''" alice]
    by simp
  note inst = parser_returns_matching_lines [of "utf16 ''1 - Alice\<newline>2 - Bob''" ascii_lower]
  from inst e have u: "{p. entry_of ascii_lower (utf16 ''1 - Alice'') p} = {alice}" by blast
  from inst lines_example have l: "list_all2 (entry_of ascii_lower)
     (filter (\<lambda>line. \<exists>p. entry_of ascii_lower line p) [utf16 ''1 - Alice'', utf16 ''2 - Bob''])
     (parseParticipants ascii_lower (utf16 ''1 - Alice\<newline>2 - Bob''))"
    by blast
  from inst have n: "toDouble 7 = Finite 7 \<and> numeral_of 7 (toString (Finite 7))" by simp
  have s: "toString (Finite 7) = utf16 ''7''"
    by (simp add: toString_exact digits_small utf16_def)
  show ?thesis using lines_example e u l n s by (simp add: parse_example)
qed

text \<open>
  Read literally (the number is the parsed integer, the key begins with the decimal
  number, every line of the format is kept), claim C1 fails on three inputs. From
  \<open>10 ^ 21\<close> on the number is printed in exponent form: the key of
  \<^verbatim>\<open>1000000000000000000000 - x\<close> is \<^verbatim>\<open>1e+21-x\<close>. Above \<open>2 ^ 53\<close> the number is
  rounded: \<^verbatim>\<open>9007199254740993\<close> becomes 9007199254740992. A line with a line
  separator (U+2028) inside the remainder has the format and is dropped, because the dot
  of the regular expression does not match it.
\<close>

theorem parser_prints_exponent_form:
  "parseParticipants ascii_lower (utf16 ''1000000000000000000000 - x'') =
     [\<lparr>number = Finite 1000000000000000000000, name = utf16 ''x'', ident = utf16 ''1e+21-x''\<rparr>] \<and>
   numeral_of 1000000000000000000000 (utf16 ''1000000000000000000000'') \<and>
   utf16 ''1e+21-x'' \<noteq> utf16 ''1000000000000000000000'' @ utf16 ''-x'' \<and>
   map number (parseParticipants ascii_lower (utf16 ''9007199254740993 - y''))
     = [Finite 9007199254740992] \<and>
   decimal (utf16 ''9007199254740993'') = 9007199254740993 \<and>
   split_nl (utf16 ''1 - a'' @ [0x2028] @ utf16 ''b'') = [utf16 ''1 - a'' @ [0x2028] @ utf16 ''b''] \<and>
   parseParticipants ascii_lower (utf16 ''1 - a'' @ [0x2028] @ utf16 ''b'') = []"
proof -
  have "utf16 ''1e+21-x'' \<noteq> utf16 ''1000000000000000000000'' @ utf16 ''-x''"
    by (simp add: utf16_def)
  moreover have "split_nl (utf16 ''1 - a'' @ [0x2028] @ utf16 ''b'')
      = [utf16 ''1 - a'' @ [0x2028] @ utf16 ''b'']"
    by (simp add: utf16_def)
  ultimately show ?thesis
    using parse_1e21 numeral_1e21 parse_2p53 decimal_2p53 parse_line_separator
    by (simp only: simp_thms)
qed

section \<open>Validation at load time\<close>

lemma indexOf_bounds: "- 1 \<le> indexOf xs x \<and> indexOf xs x < int (length xs)"
  by (induction xs) (auto simp: Let_def)

lemma indexOf_first:
  "i < length xs \<Longrightarrow> (indexOf xs (xs ! i) = int i) = (xs ! i \<notin> set (take i xs))"
proof (induction xs arbitrary: i)
  case Nil
  then show ?case by simp
next
  case (Cons y ys)
  show ?case
  proof (cases i)
    case 0
    then show ?thesis by simp
  next
    case (Suc j)
    with Cons.prems have j: "j < length ys" by simp
    have b: "- 1 \<le> indexOf ys (ys ! j)" by (simp add: indexOf_bounds)
    show ?thesis using Cons.IH [OF j] b Suc by (auto simp: Let_def)
  qed
qed

lemma set_filter_indexed:
  "set (filter_indexed p xs) = {xs ! i | i. i < length xs \<and> p (xs ! i) i}"
  unfolding filter_indexed_def
  apply (auto simp: set_zip image_iff)
  apply force
  done

lemma filter_indexed_Nil:
  "(filter_indexed p xs = []) = (\<forall>i < length xs. \<not> p (xs ! i) i)"
proof -
  have "(filter_indexed p xs = []) = (set (filter_indexed p xs) = {})" by simp
  also have "\<dots> = (\<forall>i < length xs. \<not> p (xs ! i) i)"
    unfolding set_filter_indexed by blast
  finally show ?thesis .
qed

lemma seen_before_snoc:
  "(\<exists>i < length (xs @ [a]). (xs @ [a]) ! i = n \<and> n \<in> set (take i (xs @ [a])))
     = ((\<exists>i < length xs. xs ! i = n \<and> n \<in> set (take i xs)) \<or> (a = n \<and> n \<in> set xs))"
proof -
  have "(\<exists>i < length xs. (xs @ [a]) ! i = n \<and> n \<in> set (take i (xs @ [a])))
      = (\<exists>i < length xs. xs ! i = n \<and> n \<in> set (take i xs))"
    by (simp add: nth_append cong: conj_cong)
  then show ?thesis by (simp add: Ex_less_Suc) blast
qed

lemma seen_before_count:
  "(\<exists>i < length xs. xs ! i = n \<and> n \<in> set (take i xs)) = (1 < count_list xs n)"
proof (induction xs rule: rev_induct)
  case Nil
  then show ?case by simp
next
  case (snoc a xs)
  have c: "(1 < count_list (xs @ [a]) n) = (1 < count_list xs n \<or> (a = n \<and> n \<in> set xs))"
    using count_list_0_iff [of xs n] by (cases "a = n") auto
  show ?case unfolding seen_before_snoc c using snoc.IH by simp
qed

lemma seen_before_distinct:
  "(\<forall>i < length xs. xs ! i \<notin> set (take i xs)) = distinct xs"
proof (induction xs rule: rev_induct)
  case Nil
  then show ?case by simp
next
  case (snoc a xs)
  have "(\<forall>i < length xs. (xs @ [a]) ! i \<notin> set (take i (xs @ [a])))
      = (\<forall>i < length xs. xs ! i \<notin> set (take i xs))"
    by (simp add: nth_append)
  then show ?case using snoc.IH by (simp add: All_less_Suc) blast
qed

lemma duplicates_Nil_iff: "(duplicates numbers = []) = distinct numbers"
  by (simp add: duplicates_def filter_indexed_Nil indexOf_first seen_before_distinct)

lemma set_duplicates: "set (duplicates numbers) = {n. 1 < count_list numbers n}"
proof -
  have "set (duplicates numbers) = {n. \<exists>i < length numbers. numbers ! i = n \<and> n \<in> set (take i numbers)}"
    by (auto simp: duplicates_def set_filter_indexed indexOf_first)
  then show ?thesis by (simp add: seen_before_count)
qed

lemma repeated_iff_not_distinct: "(\<exists>n. 1 < count_list xs n) = (\<not> distinct xs)"
proof -
  have "(\<exists>n. 1 < count_list xs n) = (\<exists>n. \<exists>i < length xs. xs ! i = n \<and> n \<in> set (take i xs))"
    by (simp add: seen_before_count)
  also have "\<dots> = (\<not> (\<forall>i < length xs. xs ! i \<notin> set (take i xs)))" by blast
  finally show ?thesis by (simp add: seen_before_distinct)
qed

lemma new_Set_aux:
  "distinct acc \<Longrightarrow>
   distinct (foldl (\<lambda>acc x. if x \<in> set acc then acc else acc @ [x]) acc xs) \<and>
   set (foldl (\<lambda>acc x. if x \<in> set acc then acc else acc @ [x]) acc xs) = set acc \<union> set xs"
  by (induction xs arbitrary: acc) auto

lemma distinct_new_Set: "distinct (new_Set xs)"
  using new_Set_aux [of "[]" xs] by (simp add: new_Set_def)

lemma set_new_Set: "set (new_Set xs) = set xs"
  using new_Set_aux [of "[]" xs] by (simp add: new_Set_def)

text \<open>
  Claim C3. For every submitted text, the load is rejected with the "Invalid Format"
  notification when the parse is empty, and with the "Duplicate Numbers" notification
  when some number occurs more than once among the parsed entries; the notification then
  reports each duplicated value once. In both cases the whole state, and so the pool, the
  snapshot, the winners history and the current winner, is left as it was.
\<close>

theorem load_rejects:
  "(parseParticipants L (participantText s) = [] \<longrightarrow>
      handleParticipantsSubmit L s = (s, Some InvalidFormat)) \<and>
   ((\<exists>n. 1 < count_list (map number (parseParticipants L (participantText s))) n) \<longrightarrow>
      (\<exists>reported. handleParticipantsSubmit L s = (s, Some (DuplicateNumbers reported)) \<and>
         distinct reported \<and>
         set reported = {n. 1 < count_list (map number (parseParticipants L (participantText s))) n}))"
proof (intro conjI impI)
  assume "parseParticipants L (participantText s) = []"
  then show "handleParticipantsSubmit L s = (s, Some InvalidFormat)"
    by (simp add: handleParticipantsSubmit_def)
next
  let ?numbers = "map number (parseParticipants L (participantText s))"
  assume rep: "\<exists>n. 1 < count_list ?numbers n"
  then have nd: "\<not> distinct ?numbers" using repeated_iff_not_distinct [of ?numbers] by blast
  then have ne: "parseParticipants L (participantText s) \<noteq> []" by auto
  from nd have dup: "duplicates ?numbers \<noteq> []" by (simp add: duplicates_Nil_iff)
  have "handleParticipantsSubmit L s = (s, Some (DuplicateNumbers (new_Set (duplicates ?numbers))))"
    using ne dup by (simp add: handleParticipantsSubmit_def Let_def)
  moreover have "distinct (new_Set (duplicates ?numbers))" by (rule distinct_new_Set)
  moreover have "set (new_Set (duplicates ?numbers)) = {n. 1 < count_list ?numbers n}"
    by (simp add: set_new_Set set_duplicates)
  ultimately show "\<exists>reported. handleParticipantsSubmit L s = (s, Some (DuplicateNumbers reported)) \<and>
         distinct reported \<and> set reported = {n. 1 < count_list ?numbers n}"
    by blast
qed

theorem load_rejects_witness:
  "parseParticipants ascii_lower
      (participantText (initial\<lparr>participantText := utf16 ''abc - Alice''\<rparr>)) = [] \<and>
   handleParticipantsSubmit ascii_lower (initial\<lparr>participantText := utf16 ''abc - Alice''\<rparr>)
     = (initial\<lparr>participantText := utf16 ''abc - Alice''\<rparr>, Some InvalidFormat) \<and>
   1 < count_list (map number (parseParticipants ascii_lower (participantText
         (initial\<lparr>participantText := utf16 ''1 - A\<newline>1 - B''\<rparr>)))) (Finite 1) \<and>
   (\<exists>reported. handleParticipantsSubmit ascii_lower
          (initial\<lparr>participantText := utf16 ''1 - A\<newline>1 - B''\<rparr>)
        = (initial\<lparr>participantText := utf16 ''1 - A\<newline>1 - B''\<rparr>,
           Some (DuplicateNumbers reported)) \<and>
      distinct reported \<and>
      set reported = {n. 1 < count_list (map number (parseParticipants ascii_lower (participantText
         (initial\<lparr>participantText := utf16 ''1 - A\<newline>1 - B''\<rparr>)))) n})"
proof -
  have e1: "parseParticipants ascii_lower (utf16 ''abc - Alice'') = []"
    unfolding parseParticipants_lines by (simp add: string_eval)
  have e2: "parseParticipants ascii_lower (utf16 ''1 - A\<newline>1 - B'')
      = [\<lparr>number = Finite 1, name = utf16 ''A'', ident = utf16 ''1-a''\<rparr>,
         \<lparr>number = Finite 1, name = utf16 ''B'', ident = utf16 ''1-b''\<rparr>]"
    unfolding parseParticipants_lines
    by (simp add: string_eval toDouble_exact toString_exact)
  have c: "1 < count_list (map number (parseParticipants ascii_lower (utf16 ''1 - A\<newline>1 - B'')))
      (Finite 1)"
    unfolding e2 by simp
  show ?thesis
    using load_rejects [of ascii_lower "initial\<lparr>participantText := utf16 ''abc - Alice''\<rparr>"]
      load_rejects [of ascii_lower "initial\<lparr>participantText := utf16 ''1 - A\<newline>1 - B''\<rparr>"] e1 c
    by (simp add: initial_def) blast
qed

text \<open>
  Claim C9. For every text whose parse is non-empty with pairwise distinct numbers, the
  load sets the remaining pool and the original snapshot to the parsed list and clears
  the winners history and the current winner.
\<close>

theorem load_accepts:
  assumes "parseParticipants L (participantText s) \<noteq> []"
    and "distinct (map number (parseParticipants L (participantText s)))"
  shows "handleParticipantsSubmit L s =
           (s\<lparr>participants := parseParticipants L (participantText s),
              originalParticipants := parseParticipants L (participantText s),
              winners := [], currentWinner := None\<rparr>,
            Some (ParticipantsLoaded (length (parseParticipants L (participantText s)))))"
  using assms by (simp add: handleParticipantsSubmit_def Let_def duplicates_Nil_iff)

theorem load_accepts_witness:
  "parseParticipants ascii_lower
      (participantText (initial\<lparr>participantText := utf16 ''1 - Alice\<newline>2 - Bob''\<rparr>)) \<noteq> [] \<and>
   distinct (map number (parseParticipants ascii_lower (participantText
      (initial\<lparr>participantText := utf16 ''1 - Alice\<newline>2 - Bob''\<rparr>)))) \<and>
   handleParticipantsSubmit ascii_lower
      (initial\<lparr>participantText := utf16 ''1 - Alice\<newline>2 - Bob''\<rparr>) =
     (\<lparr>participantText = utf16 ''1 - Alice\<newline>2 - Bob'',
       participants = [\<lparr>number = Finite 1, name = utf16 ''Alice'', ident = utf16 ''1-alice''\<rparr>,
                       \<lparr>number = Finite 2, name = utf16 ''Bob'', ident = utf16 ''2-bob''\<rparr>],
       originalParticipants =
         [\<lparr>number = Finite 1, name = utf16 ''Alice'', ident = utf16 ''1-alice''\<rparr>,
          \<lparr>number = Finite 2, name = utf16 ''Bob'', ident = utf16 ''2-bob''\<rparr>],
       winners = [], currentWinner = None, isDrawing = False, timeouts = []\<rparr>,
      Some (ParticipantsLoaded 2))"
proof -
  have e: "parseParticipants ascii_lower (utf16 ''1 - Alice\<newline>2 - Bob'')
      = [\<lparr>number = Finite 1, name = utf16 ''Alice'', ident = utf16 ''1-alice''\<rparr>,
         \<lparr>number = Finite 2, name = utf16 ''Bob'', ident = utf16 ''2-bob''\<rparr>]"
    using parse_example by (simp only: alice_def bob_def)
  show ?thesis
    using load_accepts [of ascii_lower "initial\<lparr>participantText := utf16 ''1 - Alice\<newline>2 - Bob''\<rparr>"]
    by (simp add: initial_def e)
qed

subsection \<open>The example session\<close>

lemma trim_example: "trim (utf16 ''1 - Alice\<newline>2 - Bob'') \<noteq> []"
  by (simp add: utf16_def trim_def is_space_def)

lemma deliver_change_example:
  "deliver L (Change (utf16 ''1 - Alice\<newline>2 - Bob'')) initial
     = Some (initial\<lparr>participantText := utf16 ''1 - Alice\<newline>2 - Bob''\<rparr>, None)"
  by (simp add: deliver_def enabled_def handler_def initial_def)

lemma deliver_load_example:
  "deliver ascii_lower ClickLoad (initial\<lparr>participantText := utf16 ''1 - Alice\<newline>2 - Bob''\<rparr>)
     = Some (loaded, Some (ParticipantsLoaded 2))"
proof -
  have "distinct (map number [alice, bob])" by (simp add: alice_def bob_def)
  then have "duplicates (map number [alice, bob]) = []" by (simp only: duplicates_Nil_iff)
  then show ?thesis
    using trim_example
    by (simp add: deliver_def enabled_def handler_def initial_def handleParticipantsSubmit_def
        parse_example loaded_def Let_def)
qed

lemma load_example:
  "handleParticipantsSubmit ascii_lower (initial\<lparr>participantText := utf16 ''1 - Alice\<newline>2 - Bob''\<rparr>)
     = (loaded, Some (ParticipantsLoaded 2))"
  using deliver_load_example trim_example
  by (simp add: deliver_def enabled_def handler_def initial_def)

lemma deliver_draw_example: "deliver L ClickDraw loaded = Some (drawing, None)"
  by (simp add: deliver_def enabled_def handler_def drawWinner_def loaded_def drawing_def)

lemma reach_drawing:
  "run ascii_lower [Change (utf16 ''1 - Alice\<newline>2 - Bob''), ClickLoad, ClickDraw] initial
     = Some drawing"
  by (simp add: deliver_change_example deliver_load_example deliver_draw_example)

section \<open>Keys of a loaded list\<close>

lemma separator_unique:
  "xs @ c # a = ys @ c # b \<Longrightarrow> c \<notin> set xs \<Longrightarrow> c \<notin> set ys \<Longrightarrow> xs = ys"
proof (induction xs arbitrary: ys)
  case Nil
  then show ?case by (cases ys) auto
next
  case (Cons x xs)
  then show ?case by (cases ys) auto
qed

lemma parsed_from_line:
  "p \<in> set (parseParticipants L text) \<Longrightarrow> \<exists>line. parse_line L line = Some p"
  by (auto simp: parseParticipants_def push_loop Let_def in_set_map_filter)

lemma parse_line_ident:
  "parse_line L line = Some p \<Longrightarrow>
     ident p = toString (number p) @ 45 # L (replace_ws (name p))"
  by (auto simp: parse_line_def Let_def utf16_hyphen split: option.splits if_splits)

lemma parse_line_number: "parse_line L line = Some p \<Longrightarrow> is_double (number p)"
  by (auto simp: parse_line_def Let_def parseInt_is_double split: option.splits if_splits)

lemma ident_determines_number:
  assumes "parse_line L l = Some p" and "parse_line L l' = Some q" and "ident p = ident q"
  shows "number p = number q"
proof -
  have "toString (number p) @ 45 # L (replace_ws (name p))
      = toString (number q) @ 45 # L (replace_ws (name q))"
    using assms by (simp add: parse_line_ident)
  then have "toString (number p) = toString (number q)"
    by (rule separator_unique) (rule toString_no_hyphen)+
  with parse_line_number [OF assms(1)] parse_line_number [OF assms(2)]
  show ?thesis by (rule toString_inj)
qed

lemma distinct_map_transfer:
  "distinct (map g xs) \<Longrightarrow> (\<And>x y. x \<in> set xs \<Longrightarrow> y \<in> set xs \<Longrightarrow> f x = f y \<Longrightarrow> g x = g y) \<Longrightarrow>
   distinct (map f xs)"
  by (induction xs) (auto simp: image_iff)

lemma printed_below_2p53:
  "m < 2 ^ 53 \<Longrightarrow> numeral_of m (toString (Finite m))"
  by (simp add: toString_exact numeral_of_digits)

text \<open>
  Claim C10. After every successful load the keys (\<^verbatim>\<open>id\<close>) of the loaded participants
  are pairwise distinct, in the pool and in the snapshot. Every key starts with the number
  of its participant as the template literal prints it, followed by a hyphen; the printed
  number holds no hyphen, it is the decimal numeral of the number when the number is below
  \<open>2 ^ 53\<close>, and two loaded participants with the same printed number have the same
  number. A load with a repeated number is rejected.
\<close>

theorem loaded_ids_distinct:
  assumes "handleParticipantsSubmit L s = (s', Some (ParticipantsLoaded k))"
  shows "distinct (map ident (participants s')) \<and>
         distinct (map ident (originalParticipants s')) \<and>
         distinct (map number (participants s')) \<and>
         (\<forall>p \<in> set (participants s').
            (\<exists>r. ident p = toString (number p) @ 45 # r) \<and> 45 \<notin> set (toString (number p)) \<and>
            (\<forall>m < 2 ^ 53. number p = Finite m \<longrightarrow> numeral_of m (toString (number p))) \<and>
            (\<forall>q \<in> set (participants s').
               toString (number p) = toString (number q) \<longrightarrow> number p = number q))"
proof -
  let ?parsed = "parseParticipants L (participantText s)"
  from assms have acc: "participants s' = ?parsed" "originalParticipants s' = ?parsed"
      "distinct (map number ?parsed)"
    by (auto simp: handleParticipantsSubmit_def Let_def duplicates_Nil_iff split: if_splits)
  have "distinct (map ident ?parsed)"
  proof (rule distinct_map_transfer [OF acc(3)])
    fix p q assume "p \<in> set ?parsed" "q \<in> set ?parsed" "ident p = ident q"
    then show "number p = number q"
      using parsed_from_line ident_determines_number by blast
  qed
  moreover have "\<forall>p \<in> set ?parsed. \<exists>r. ident p = toString (number p) @ 45 # r"
    using parsed_from_line parse_line_ident by blast
  moreover have "\<forall>p \<in> set ?parsed. \<forall>m < 2 ^ 53. number p = Finite m \<longrightarrow>
      numeral_of m (toString (number p))"
    using printed_below_2p53 by simp
  moreover have "\<forall>p \<in> set ?parsed. \<forall>q \<in> set ?parsed.
      toString (number p) = toString (number q) \<longrightarrow> number p = number q"
  proof (intro ballI impI)
    fix p q assume "p \<in> set ?parsed" "q \<in> set ?parsed"
      and e: "toString (number p) = toString (number q)"
    then have "is_double (number p)" "is_double (number q)"
      using parsed_from_line parse_line_number by blast+
    then show "number p = number q" using e by (rule toString_inj)
  qed
  ultimately show ?thesis using acc toString_no_hyphen by simp
qed

theorem loaded_ids_distinct_witness:
  "handleParticipantsSubmit ascii_lower
      (initial\<lparr>participantText := utf16 ''1 - Alice\<newline>2 - Bob''\<rparr>)
     = (loaded, Some (ParticipantsLoaded 2)) \<and>
   distinct (map ident (participants loaded)) \<and>
   map ident (participants loaded) = [utf16 ''1-alice'', utf16 ''2-bob''] \<and>
   map number (participants loaded) = [Finite 1, Finite 2] \<and>
   numeral_of 1 (toString (Finite 1)) \<and> numeral_of 2 (toString (Finite 2))"
proof -
  note inst = loaded_ids_distinct [OF load_example]
  from inst have d: "distinct (map ident (participants loaded))" by (rule conjunct1)
  from inst have "\<forall>p \<in> set (participants loaded). \<forall>m < 2 ^ 53. number p = Finite m \<longrightarrow>
      numeral_of m (toString (number p))"
    by blast
  then have "numeral_of 1 (toString (Finite 1)) \<and> numeral_of 2 (toString (Finite 2))"
    by (simp add: loaded_def alice_def bob_def)
  then show ?thesis using d load_example by (simp add: loaded_def alice_def bob_def)
qed

text \<open>
  From \<open>10 ^ 21\<close> on the template literal prints a number in exponent form: the key of
  the entry \<^verbatim>\<open>2000000000000000000000 - x\<close> is \<^verbatim>\<open>2e+21-x\<close>, which does not begin
  with the decimal numeral of the number.
\<close>

lemma shift_3e21: "significand_shift 3000000000000000000000 = 19"
  by (rule shift_unique) simp_all

lemma toDouble_3e21: "toDouble 3000000000000000000000 = Finite 3000000000000000000000"
  by (rule toDouble_aligned [OF shift_3e21]) simp_all

lemma digits_2e21: "length (decimal_digits 2000000000000000000000) = 22"
  by (simp add: digits_small digits_large)

lemma candidates_2e21_22: "candidates 2000000000000000000000 22 = []"
  unfolding candidates_def by (simp add: toDouble_1e22)

lemma candidates_2e21_21: "candidates 2000000000000000000000 21 = [2]"
  unfolding candidates_def by (simp add: toDouble_2e21 toDouble_3e21)

lemma shortest_2e21: "shortest 2000000000000000000000 22 = (2, 21)"
  apply (subst shortest.simps)
  apply (simp only: candidates_2e21_22 closest_def list.case option.case)
  apply (subst shortest.simps)
  apply (simp add: candidates_2e21_21 closest_def)
  done

lemma toString_2e21: "toString (Finite 2000000000000000000000) = utf16 ''2e+21''"
  unfolding toString_def jsnumber.case digits_2e21 shortest_2e21
  by (simp add: digits_small digits_large Let_def utf16_def)

lemma parse_2e21:
  "parseParticipants ascii_lower (utf16 ''2000000000000000000000 - x'') =
     [\<lparr>number = Finite 2000000000000000000000, name = utf16 ''x'', ident = utf16 ''2e+21-x''\<rparr>]"
  unfolding parseParticipants_lines
  by (simp add: string_eval toDouble_2e21 toString_2e21)

lemma numeral_2e21: "numeral_of 2000000000000000000000 (utf16 ''2000000000000000000000'')"
  unfolding numeral_of_def decimal_digits_value
  by (simp add: utf16_def digits_value_def is_digit_def)

theorem loaded_id_in_exponent_form:
  "handleParticipantsSubmit ascii_lower
      (initial\<lparr>participantText := utf16 ''2000000000000000000000 - x''\<rparr>)
     = (initial\<lparr>participantText := utf16 ''2000000000000000000000 - x'',
          participants := [\<lparr>number = Finite 2000000000000000000000, name = utf16 ''x'',
             ident = utf16 ''2e+21-x''\<rparr>],
          originalParticipants := [\<lparr>number = Finite 2000000000000000000000, name = utf16 ''x'',
             ident = utf16 ''2e+21-x''\<rparr>]\<rparr>,
        Some (ParticipantsLoaded 1)) \<and>
   numeral_of 2000000000000000000000 (utf16 ''2000000000000000000000'') \<and>
   \<not> prefix (utf16 ''2000000000000000000000'' @ utf16 ''-'') (utf16 ''2e+21-x'')"
proof -
  have "duplicates [Finite 2000000000000000000000] = []"
    by (simp only: duplicates_Nil_iff) simp
  then have "handleParticipantsSubmit ascii_lower
      (initial\<lparr>participantText := utf16 ''2000000000000000000000 - x''\<rparr>)
     = (initial\<lparr>participantText := utf16 ''2000000000000000000000 - x'',
          participants := [\<lparr>number = Finite 2000000000000000000000, name = utf16 ''x'',
             ident = utf16 ''2e+21-x''\<rparr>],
          originalParticipants := [\<lparr>number = Finite 2000000000000000000000, name = utf16 ''x'',
             ident = utf16 ''2e+21-x''\<rparr>]\<rparr>,
        Some (ParticipantsLoaded 1))"
    by (simp add: handleParticipantsSubmit_def parse_2e21 Let_def initial_def)
  moreover have "\<not> prefix (utf16 ''2000000000000000000000'' @ utf16 ''-'') (utf16 ''2e+21-x'')"
    by (simp add: utf16_def)
  ultimately show ?thesis using numeral_2e21 by (simp only: simp_thms)
qed

section \<open>Reset, and the draw on an empty pool\<close>

text \<open>
  Claim C5. In every state, however many draws have happened, the reset replaces the
  remaining pool by the original snapshot (which it keeps) and clears the winners
  history and the current winner.
\<close>

theorem reset_restores:
  "participants (fst (resetDraw s)) = originalParticipants s \<and>
   originalParticipants (fst (resetDraw s)) = originalParticipants s \<and>
   winners (fst (resetDraw s)) = [] \<and>
   currentWinner (fst (resetDraw s)) = None"
  by (simp add: resetDraw_def)

text \<open>
  Claim C7. Invoked on an empty pool, \<^verbatim>\<open>drawWinner\<close> signals "No Participants" and
  changes nothing: no winner is appended, the drawing flag is not set, no callback is
  scheduled.
\<close>

theorem draw_on_empty_pool:
  assumes "participants s = []"
  shows "drawWinner s = (s, Some NoParticipants)"
  using assms by (simp add: drawWinner_def)

theorem draw_on_empty_pool_witness:
  "participants initial = [] \<and> drawWinner initial = (initial, Some NoParticipants)"
  using draw_on_empty_pool [of initial] by (simp add: initial_def)

section \<open>One draw and repeated draws\<close>

lemma filter_indexed_all:
  assumes "\<And>k. k < length xs \<Longrightarrow> p (xs ! k) k"
  shows "filter_indexed p xs = xs"
proof -
  have "filter (\<lambda>(x, index). p x index) (zip xs [0..<length xs]) = zip xs [0..<length xs]"
    using assms by (auto simp: filter_id_conv set_zip)
  then show ?thesis by (simp add: filter_indexed_def)
qed

lemma filter_indexed_remove:
  "filter_indexed (\<lambda>_ index. index \<noteq> i) xs = take i xs @ drop (Suc i) xs"
proof (cases "i < length xs")
  case False
  then show ?thesis by (simp add: filter_indexed_all)
next
  case True
  let ?n = "length xs"
  have xs: "xs = take i xs @ xs ! i # drop (Suc i) xs"
    using True by (simp add: id_take_nth_drop)
  have idx: "[0..<?n] = [0..<i] @ i # [Suc i..<?n]"
    using True by (metis le_add1 less_imp_add_positive upt_add_eq_append upt_conv_Cons zero_le less_imp_le_nat le_add_diff_inverse)
  have z: "zip xs [0..<?n] = zip (take i xs) [0..<i] @ (xs ! i, i) # zip (drop (Suc i) xs) [Suc i..<?n]"
  proof -
    have "zip xs [0..<?n] = zip (take i xs @ xs ! i # drop (Suc i) xs) ([0..<i] @ i # [Suc i..<?n])"
      using xs idx by simp
    also have "\<dots> = zip (take i xs) [0..<i] @ zip (xs ! i # drop (Suc i) xs) (i # [Suc i..<?n])"
      using True by (subst zip_append) simp_all
    finally show ?thesis by simp
  qed
  have a: "filter (\<lambda>(x, index). index \<noteq> i) (zip (take i xs) [0..<i]) = zip (take i xs) [0..<i]"
    by (auto simp: filter_id_conv set_zip)
  have b: "filter (\<lambda>(x, index). index \<noteq> i) (zip (drop (Suc i) xs) [Suc i..<?n])
      = zip (drop (Suc i) xs) [Suc i..<?n]"
    by (auto simp: filter_id_conv set_zip)
  have "filter_indexed (\<lambda>_ index. index \<noteq> i) xs
      = map fst (zip (take i xs) [0..<i]) @ map fst (zip (drop (Suc i) xs) [Suc i..<?n])"
    unfolding filter_indexed_def z by (simp add: a b)
  also have "\<dots> = take i xs @ drop (Suc i) xs"
    using True by (simp add: map_fst_zip)
  finally show ?thesis .
qed

lemma draw_step:
  assumes i: "i < length (participants s)" and t: "timeouts s = []"
  shows "draw i d s =
     Some (s\<lparr>isDrawing := False,
             currentWinner := Some \<lparr>number = number (participants s ! i),
                name = name (participants s ! i), ident = ident (participants s ! i),
                drawnAt = d, position = length (winners s) + 1\<rparr>,
             timeouts := [],
             winners := winners s @ [\<lparr>number = number (participants s ! i),
                name = name (participants s ! i), ident = ident (participants s ! i),
                drawnAt = d, position = length (winners s) + 1\<rparr>],
             participants := take i (participants s) @ drop (Suc i) (participants s)\<rparr>)"
proof -
  from i have ne: "participants s \<noteq> []" by auto
  show ?thesis
    using i t ne
    by (simp add: draw_def drawWinner_def timerFires_def revealWinner_def Let_def
        filter_indexed_remove)
qed

lemma draws_counts:
  "timeouts s = [] \<Longrightarrow> \<forall>k < length picks. fst (picks ! k) < length (participants s) - k \<Longrightarrow>
   \<exists>s'. draws picks s = Some s' \<and> timeouts s' = [] \<and>
     length (participants s') = length (participants s) - length picks \<and>
     length (winners s') = length (winners s) + length picks"
proof (induction picks arbitrary: s)
  case Nil
  then show ?case by simp
next
  case (Cons p picks)
  obtain i d where p: "p = (i, d)" by (cases p)
  from Cons.prems(2) have i: "i < length (participants s)"
    using p by (auto dest: spec [of _ 0])
  let ?s1 = "s\<lparr>isDrawing := False,
             currentWinner := Some \<lparr>number = number (participants s ! i),
                name = name (participants s ! i), ident = ident (participants s ! i),
                drawnAt = d, position = length (winners s) + 1\<rparr>,
             timeouts := [],
             winners := winners s @ [\<lparr>number = number (participants s ! i),
                name = name (participants s ! i), ident = ident (participants s ! i),
                drawnAt = d, position = length (winners s) + 1\<rparr>],
             participants := take i (participants s) @ drop (Suc i) (participants s)\<rparr>"
  have d1: "draw i d s = Some ?s1" using draw_step [OF i Cons.prems(1)] .
  have len: "length (participants ?s1) = length (participants s) - 1" using i by auto
  have rest: "\<forall>k < length picks. fst (picks ! k) < length (participants ?s1) - k"
  proof (intro allI impI)
    fix k assume "k < length picks"
    then have "fst ((p # picks) ! Suc k) < length (participants s) - Suc k"
      using Cons.prems(2) by (auto dest: spec [of _ "Suc k"])
    then show "fst (picks ! k) < length (participants ?s1) - k" using len by simp
  qed
  have "timeouts ?s1 = []" by simp
  from Cons.IH [OF this rest] obtain s' where
    s': "draws picks ?s1 = Some s'" "timeouts s' = []"
      "length (participants s') = length (participants ?s1) - length picks"
      "length (winners s') = length (winners ?s1) + length picks"
    by blast
  have "draws (p # picks) s = Some s'" using p d1 s'(1) by simp
  moreover have "length (participants s') = length (participants s) - length (p # picks)"
    using s'(3) len by simp
  moreover have "length (winners s') = length (winners s) + length (p # picks)"
    using s'(4) by simp
  ultimately show ?case using s'(2) by blast
qed

text \<open>In every session the draw button is enabled only when no callback is pending.\<close>

lemma one_timer_step:
  assumes "one_timer s" and "deliver L e s = Some (s', t)"
  shows "one_timer s'"
proof (cases e)
  case (Change x)
  with assms show ?thesis
    by (auto simp: one_timer_def deliver_def enabled_def handler_def split: if_splits)
next
  case ClickLoad
  with assms show ?thesis
    by (auto simp: one_timer_def deliver_def enabled_def handler_def handleParticipantsSubmit_def
        Let_def split: if_splits)
next
  case ClickClear
  with assms show ?thesis
    by (auto simp: one_timer_def deliver_def enabled_def handler_def clearAll_def split: if_splits)
next
  case ClickReset
  with assms show ?thesis
    by (auto simp: one_timer_def deliver_def enabled_def handler_def resetDraw_def split: if_splits)
next
  case ClickDraw
  with assms show ?thesis
    by (auto simp: one_timer_def deliver_def enabled_def handler_def drawWinner_def split: if_splits)
next
  case (TimerFires i d)
  from assms(1) have "timeouts s = [] \<or> (\<exists>cl. timeouts s = [cl])"
    by (cases "timeouts s") (auto simp: one_timer_def)
  with assms TimerFires show ?thesis
    by (auto simp: one_timer_def deliver_def enabled_def handler_def timerFires_def
        revealWinner_def Let_def split: if_splits prod.splits)
qed

lemma one_timer_run: "one_timer s \<Longrightarrow> run L es s = Some s' \<Longrightarrow> one_timer s'"
proof (induction es arbitrary: s)
  case Nil
  then show ?case by simp
next
  case (Cons e es)
  from Cons.prems(2) obtain s1 t where d: "deliver L e s = Some (s1, t)" and r: "run L es s1 = Some s'"
    by (auto split: option.splits)
  from one_timer_step [OF Cons.prems(1) d] have "one_timer s1" .
  from Cons.IH [OF this r] show ?case .
qed

lemma draw_button_means_no_timer:
  assumes "run L es initial = Some s" and "enabled s ClickDraw"
  shows "timeouts s = []"
proof -
  have "one_timer initial" by (simp add: one_timer_def initial_def)
  from one_timer_run [OF this assms(1)] have "one_timer s" .
  moreover from assms(2) have "\<not> isDrawing s" by (simp add: enabled_def)
  ultimately show ?thesis by (simp add: one_timer_def)
qed

text \<open>Through the controls a complete draw is the click on the draw button followed by
  the timer.\<close>

lemma draw_by_controls:
  assumes "participants s \<noteq> []" and "\<not> isDrawing s"
  shows "run L [ClickDraw, TimerFires i d] s = draw i d s"
proof -
  have d: "deliver L ClickDraw s = Some (drawWinner s)"
    using assms by (simp add: deliver_def enabled_def handler_def)
  obtain s1 t where s1: "drawWinner s = (s1, t)" by (cases "drawWinner s")
  have "timeouts s1 \<noteq> []" using s1 assms(1) by (auto simp: drawWinner_def)
  then have "deliver L (TimerFires i d) s1 = timerFires i d s1"
    by (simp add: deliver_def enabled_def handler_def)
  then show ?thesis using d s1 by (simp add: draw_def split: option.splits)
qed

text \<open>
  Claim C2. When no other draw is in progress, one draw with a selected index \<open>i\<close> below
  the size of the (hence non-empty) remaining pool appends exactly one winner to the
  history, with the fields of the participant at index \<open>i\<close>, the time of the reveal and
  position equal to the previous winner count plus 1, and removes exactly the entry at
  index \<open>i\<close> from the pool, which so shrinks by one. Successive draws with indices in
  range shrink the pool by one each, and \<open>n\<close> of them on a pool of size \<open>n\<close> leave it
  empty.
\<close>

theorem draw_removes_one_appends_one:
  assumes "timeouts s = []"
  shows "(i < length (participants s) \<longrightarrow>
           (\<exists>s'. draw i d s = Some s' \<and>
              winners s' = winners s @ [\<lparr>number = number (participants s ! i),
                 name = name (participants s ! i), ident = ident (participants s ! i),
                 drawnAt = d, position = length (winners s) + 1\<rparr>] \<and>
              participants s' = take i (participants s) @ drop (Suc i) (participants s) \<and>
              length (participants s') = length (participants s) - 1 \<and>
              length (winners s') = length (winners s) + 1)) \<and>
         ((\<forall>k < length picks. fst (picks ! k) < length (participants s) - k) \<longrightarrow>
           (\<exists>s'. draws picks s = Some s' \<and>
              length (participants s') = length (participants s) - length picks \<and>
              length (winners s') = length (winners s) + length picks \<and>
              (length picks = length (participants s) \<longrightarrow> participants s' = [])))"
proof (intro conjI impI)
  assume i: "i < length (participants s)"
  show "\<exists>s'. draw i d s = Some s' \<and>
              winners s' = winners s @ [\<lparr>number = number (participants s ! i),
                 name = name (participants s ! i), ident = ident (participants s ! i),
                 drawnAt = d, position = length (winners s) + 1\<rparr>] \<and>
              participants s' = take i (participants s) @ drop (Suc i) (participants s) \<and>
              length (participants s') = length (participants s) - 1 \<and>
              length (winners s') = length (winners s) + 1"
    using draw_step [OF i assms, of d] i by auto
next
  assume "\<forall>k < length picks. fst (picks ! k) < length (participants s) - k"
  from draws_counts [OF assms this] obtain s' where
    s': "draws picks s = Some s'"
      "length (participants s') = length (participants s) - length picks"
      "length (winners s') = length (winners s) + length picks"
    by blast
  from s'(2) have "length picks = length (participants s) \<longrightarrow> participants s' = []" by auto
  with s' show "\<exists>s'. draws picks s = Some s' \<and>
              length (participants s') = length (participants s) - length picks \<and>
              length (winners s') = length (winners s) + length picks \<and>
              (length picks = length (participants s) \<longrightarrow> participants s' = [])"
    by blast
qed

theorem draw_removes_one_appends_one_witness:
  "timeouts loaded = [] \<and> 1 < length (participants loaded) \<and>
   fst ([(1, 1000), (0 :: nat, 2000 :: nat)] ! 0) < length (participants loaded) - 0 \<and>
   fst ([(1, 1000), (0 :: nat, 2000 :: nat)] ! 1) < length (participants loaded) - 1 \<and>
   length [(1, 1000), (0 :: nat, 2000 :: nat)] = length (participants loaded) \<and>
   (\<exists>s'. draw 1 1000 loaded = Some s' \<and>
      winners s' = [\<lparr>number = Finite 2, name = utf16 ''Bob'', ident = utf16 ''2-bob'', drawnAt = 1000, position = 1\<rparr>] \<and>
      participants s' = [alice]) \<and>
   (\<exists>s'. draws [(1, 1000), (0, 2000)] loaded = Some s' \<and> participants s' = [] \<and>
      length (winners s') = 2)"
proof -
  have t: "timeouts loaded = []" by (simp add: loaded_def)
  have i: "1 < length (participants loaded)" by (simp add: loaded_def)
  have h: "\<forall>k < length [(1, 1000), (0 :: nat, 2000 :: nat)].
       fst ([(1, 1000), (0 :: nat, 2000 :: nat)] ! k) < length (participants loaded) - k"
    by (simp add: loaded_def All_less_Suc numeral_2_eq_2)
  have n: "length [(1, 1000), (0 :: nat, 2000 :: nat)] = length (participants loaded)"
    by (simp add: loaded_def)
  note inst = draw_removes_one_appends_one [OF t, of 1 1000 "[(1, 1000), (0, 2000)]"]
  from inst i obtain s1 where s1: "draw 1 1000 loaded = Some s1"
      "winners s1 = winners loaded @ [\<lparr>number = number (participants loaded ! 1),
                 name = name (participants loaded ! 1), ident = ident (participants loaded ! 1),
                 drawnAt = 1000, position = length (winners loaded) + 1\<rparr>]"
      "participants s1 = take 1 (participants loaded) @ drop (Suc 1) (participants loaded)"
    by blast
  from inst h n obtain s2 where s2: "draws [(1, 1000), (0, 2000)] loaded = Some s2"
      "length (winners s2) = length (winners loaded) + length [(1, 1000), (0 :: nat, 2000 :: nat)]"
      "participants s2 = []"
    by blast
  have a: "winners s1 = [\<lparr>number = Finite 2, name = utf16 ''Bob'', ident = utf16 ''2-bob'', drawnAt = 1000, position = 1\<rparr>]"
    using s1(2) by (simp add: loaded_def bob_def)
  have b: "participants s1 = [alice]" using s1(3) by (simp add: loaded_def)
  have c: "length (winners s2) = 2" using s2(2) by (simp add: loaded_def)
  have h0: "fst ([(1, 1000), (0 :: nat, 2000 :: nat)] ! 0) < length (participants loaded) - 0"
    and h1: "fst ([(1, 1000), (0 :: nat, 2000 :: nat)] ! 1) < length (participants loaded) - 1"
    by (simp_all add: loaded_def)
  show ?thesis using t i h0 h1 n s1(1) a b s2(1) s2(3) c by blast
qed

section \<open>The guard of the draw button\<close>

text \<open>
  Claim C8. In every state the controls reach, the drawing flag is set exactly while the
  callback of a draw is pending (between the click that starts the draw and the reveal),
  and at most one callback is pending. While the flag is set the draw button is disabled:
  a click on it delivers no event, changes no state and schedules nothing. A click that
  is accepted sets the flag, takes the last winner off display and schedules exactly one
  callback, and the callback, when
  it runs, ends the drawing state.
\<close>

theorem draw_button_blocked:
  assumes "run L es initial = Some s"
  shows "(isDrawing s \<longleftrightarrow> timeouts s \<noteq> []) \<and> length (timeouts s) \<le> 1 \<and>
         (isDrawing s \<or> timeouts s \<noteq> [] \<longrightarrow>
            deliver L ClickDraw s = None \<and> after L ClickDraw s = s) \<and>
         (\<forall>s' t. deliver L ClickDraw s = Some (s', t) \<longrightarrow>
            s' = s\<lparr>isDrawing := True, currentWinner := None,
                   timeouts := [(participants s, winners s)]\<rparr> \<and> t = None) \<and>
         (\<forall>i d s' t. deliver L (TimerFires i d) s = Some (s', t) \<longrightarrow>
            \<not> isDrawing s' \<and> timeouts s' = [])"
proof -
  have "one_timer initial" by (simp add: one_timer_def initial_def)
  from one_timer_run [OF this assms] have one: "one_timer s" .
  then have a: "isDrawing s \<longleftrightarrow> timeouts s \<noteq> []" and b: "length (timeouts s) \<le> 1"
    by (simp_all add: one_timer_def)
  have c: "isDrawing s \<or> timeouts s \<noteq> [] \<longrightarrow>
      deliver L ClickDraw s = None \<and> after L ClickDraw s = s"
    using a by (simp add: deliver_def after_def enabled_def)
  have d: "\<forall>s' t. deliver L ClickDraw s = Some (s', t) \<longrightarrow>
      s' = s\<lparr>isDrawing := True, currentWinner := None,
                   timeouts := [(participants s, winners s)]\<rparr> \<and> t = None"
    using a by (auto simp: deliver_def enabled_def handler_def drawWinner_def split: if_splits)
  have e: "\<forall>i d s' t. deliver L (TimerFires i d) s = Some (s', t) \<longrightarrow>
      \<not> isDrawing s' \<and> timeouts s' = []"
  proof (intro allI impI)
    fix i d s' t assume f: "deliver L (TimerFires i d) s = Some (s', t)"
    from one_timer_step [OF one f] have o: "one_timer s'" .
    from b have "timeouts s = [] \<or> (\<exists>cl. timeouts s = [cl])"
      by (cases "timeouts s") auto
    with f have "timeouts s' = []"
      by (auto simp: deliver_def enabled_def handler_def timerFires_def revealWinner_def Let_def
          split: if_splits prod.splits)
    with o show "\<not> isDrawing s' \<and> timeouts s' = []" by (simp add: one_timer_def)
  qed
  from a b c d e show ?thesis by (simp only: simp_thms)
qed

theorem draw_button_blocked_witness:
  "run ascii_lower [Change (utf16 ''1 - Alice\<newline>2 - Bob''), ClickLoad, ClickDraw] initial
     = Some drawing \<and>
   isDrawing drawing \<and> timeouts drawing = [([alice, bob], [])] \<and>
   deliver ascii_lower ClickDraw drawing = None \<and> after ascii_lower ClickDraw drawing = drawing \<and>
   run ascii_lower [Change (utf16 ''1 - Alice\<newline>2 - Bob''), ClickLoad] initial = Some loaded \<and>
   deliver ascii_lower ClickDraw loaded = Some (drawing, None) \<and>
   deliver ascii_lower (TimerFires 0 1000) drawing
     = Some (loaded\<lparr>participants := [bob],
          winners := [\<lparr>number = Finite 1, name = utf16 ''Alice'', ident = utf16 ''1-alice'',
             drawnAt = 1000, position = 1\<rparr>],
          currentWinner := Some \<lparr>number = Finite 1, name = utf16 ''Alice'',
             ident = utf16 ''1-alice'', drawnAt = 1000, position = 1\<rparr>\<rparr>,
        Some (WinnerDrawn (utf16 ''Alice'')))"
proof -
  have r: "run ascii_lower [Change (utf16 ''1 - Alice\<newline>2 - Bob''), ClickLoad] initial = Some loaded"
    by (simp add: deliver_change_example deliver_load_example)
  have i: "isDrawing drawing" and t: "timeouts drawing = [([alice, bob], [])]"
    by (simp_all add: drawing_def loaded_def)
  from draw_button_blocked [OF reach_drawing] i
  have b: "deliver ascii_lower ClickDraw drawing = None \<and> after ascii_lower ClickDraw drawing = drawing"
    by blast
  have f: "deliver ascii_lower (TimerFires 0 1000) drawing
     = Some (loaded\<lparr>participants := [bob],
          winners := [\<lparr>number = Finite 1, name = utf16 ''Alice'', ident = utf16 ''1-alice'',
             drawnAt = 1000, position = 1\<rparr>],
          currentWinner := Some \<lparr>number = Finite 1, name = utf16 ''Alice'',
             ident = utf16 ''1-alice'', drawnAt = 1000, position = 1\<rparr>\<rparr>,
        Some (WinnerDrawn (utf16 ''Alice'')))"
    by (simp add: deliver_def enabled_def handler_def timerFires_def drawing_def loaded_def
        revealWinner_def alice_def filter_indexed_def Let_def)
  show ?thesis using reach_drawing i t b r deliver_draw_example f by (simp only: simp_thms)
qed

text \<open>The guard is the \<^verbatim>\<open>disabled\<close> attribute of the button; the body of
  \<^verbatim>\<open>drawWinner\<close> tests the pool only.\<close>

lemma drawWinner_tests_pool_only:
  "participants s \<noteq> [] \<Longrightarrow>
   drawWinner s = (s\<lparr>isDrawing := True, currentWinner := None,
                     timeouts := timeouts s @ [(participants s, winners s)]\<rparr>, None)"
  by (simp add: drawWinner_def)

section \<open>Clear\<close>

text \<open>What \<^verbatim>\<open>clearAll\<close> sets: five of the six cells. With no draw in progress the
  result is the initial state.\<close>

lemma clearAll_cells:
  "participantText (fst (clearAll s)) = [] \<and>
   participants (fst (clearAll s)) = [] \<and>
   originalParticipants (fst (clearAll s)) = [] \<and>
   winners (fst (clearAll s)) = [] \<and>
   currentWinner (fst (clearAll s)) = None \<and>
   isDrawing (fst (clearAll s)) = isDrawing s \<and>
   timeouts (fst (clearAll s)) = timeouts s \<and>
   (\<not> isDrawing s \<and> timeouts s = [] \<longrightarrow> fst (clearAll s) = initial)"
  by (simp add: clearAll_def initial_def)

lemma deliver_clear_example:
  "deliver L ClickClear drawing = Some (fst (clearAll drawing), None)"
  by (simp add: deliver_def enabled_def handler_def clearAll_def)

lemma deliver_timer_example:
  "deliver L (TimerFires 0 1000) (fst (clearAll drawing))
     = Some (ghost, Some (WinnerDrawn (utf16 ''Alice'')))"
  by (simp add: deliver_def enabled_def handler_def timerFires_def clearAll_def drawing_def
      loaded_def revealWinner_def ghost_def alice_def filter_indexed_def Let_def)

text \<open>
  Claim C6 (from every state the clear returns the component to the initial empty state)
  does not hold of the code. The clear button is never disabled, so it can be pressed
  during the reveal delay of a draw; \<^verbatim>\<open>clearAll\<close> neither resets the drawing flag nor
  cancels the scheduled callback. The state after the clear is not the initial state: the
  draw and reset buttons stay disabled, and the callback, when it runs, puts a winner of
  the cleared list into the history and on display.
\<close>

theorem clearAll_while_drawing:
  "run ascii_lower [Change (utf16 ''1 - Alice\<newline>2 - Bob''), ClickLoad, ClickDraw] initial
     = Some drawing \<and>
   deliver ascii_lower ClickClear drawing = Some (fst (clearAll drawing), None) \<and>
   fst (clearAll drawing) \<noteq> initial \<and>
   isDrawing (fst (clearAll drawing)) \<and>
   timeouts (fst (clearAll drawing)) = [([alice, bob], [])] \<and>
   deliver ascii_lower (TimerFires 0 1000) (fst (clearAll drawing))
     = Some (ghost, Some (WinnerDrawn (utf16 ''Alice''))) \<and>
   winners ghost \<noteq> [] \<and> currentWinner ghost \<noteq> None"
  using reach_drawing deliver_clear_example [of ascii_lower]
    deliver_timer_example [of ascii_lower]
  by (simp add: clearAll_def drawing_def loaded_def initial_def ghost_def)

section \<open>The pool invariant\<close>

text \<open>
  Claim C4 (the remaining pool and the winners always reconstitute the snapshot) is
  broken by a session the controls allow: the clear button stays enabled during the
  reveal delay, and the callback that fires afterwards appends its winner to the cleared
  history. The snapshot and the pool are then empty while the history holds a winner.
\<close>

theorem clear_during_draw_leaves_winner:
  "run ascii_lower [Change (utf16 ''1 - Alice\<newline>2 - Bob''), ClickLoad, ClickDraw, ClickClear,
        TimerFires 0 1000] initial
     = Some ghost \<and>
   originalParticipants ghost = [] \<and> participants ghost = [] \<and> winners ghost \<noteq> [] \<and>
   \<not> pool_invariant ghost"
  by (simp add: deliver_change_example deliver_load_example deliver_draw_example
      deliver_clear_example deliver_timer_example ghost_def pool_invariant_def)

text \<open>In every session in which the clear button is not pressed during the reveal delay
  the invariant holds at all times, and the snapshot changes only by a clear or an
  accepted load.\<close>

lemma participant_of_winner:
  "participant_of \<lparr>number = number x, name = name x, ident = ident x, drawnAt = d, position = k\<rparr> = x"
  by (cases x) (simp add: participant_of_def)

lemma subseq_remove: "subseq (take i xs @ drop (Suc i) xs) xs"
proof -
  have "suffix (drop 1 (drop i xs)) (drop i xs)" by (rule suffix_drop)
  then have "subseq (drop (Suc i) xs) (drop i xs)" by (auto intro: suffix_imp_subseq)
  then have "subseq (take i xs @ drop (Suc i) xs) (take i xs @ drop i xs)"
    by (simp only: subseq_append')
  then show ?thesis by simp
qed

lemma mset_remove:
  "i < length xs \<Longrightarrow> mset (take i xs @ drop (Suc i) xs) + {#xs ! i#} = mset xs"
proof -
  assume "i < length xs"
  then have "xs = take i xs @ xs ! i # drop (Suc i) xs" by (rule id_take_nth_drop)
  then have "mset xs = mset (take i xs @ xs ! i # drop (Suc i) xs)" by simp
  then show ?thesis by simp
qed

lemma invariant_load:
  assumes "pool_invariant s" "coherent s" "participants s = []"
  shows "pool_invariant (fst (handleParticipantsSubmit L s)) \<and> coherent (fst (handleParticipantsSubmit L s))"
proof -
  from assms(2,3) have nd: "\<not> isDrawing s" "timeouts s = []"
    by (auto simp: coherent_def split: if_splits)
  show ?thesis
    using assms(1,2) nd
    by (auto simp: handleParticipantsSubmit_def Let_def pool_invariant_def coherent_def)
qed

lemma invariant_reveal:
  assumes "pool_invariant s" "coherent s" "timeouts s \<noteq> []"
    and "timerFires i d s = Some (s', t)"
  shows "pool_invariant s' \<and> coherent s'"
proof -
  from assms(2,3) have dr: "isDrawing s" "timeouts s = [(participants s, winners s)]"
    by (auto simp: coherent_def split: if_splits)
  let ?w = "\<lparr>number = number (participants s ! i), name = name (participants s ! i),
      ident = ident (participants s ! i), drawnAt = d, position = length (winners s) + 1\<rparr>"
  from assms(4) dr have i: "i < length (participants s)"
    by (auto simp: timerFires_def revealWinner_def split: if_splits)
  from assms(4) dr i have s': "s' = s\<lparr>timeouts := [], currentWinner := Some ?w,
      winners := winners s @ [?w],
      participants := take i (participants s) @ drop (Suc i) (participants s),
      isDrawing := False\<rparr>"
    by (simp add: timerFires_def revealWinner_def Let_def filter_indexed_remove)
  have a: "subseq (participants s') (originalParticipants s')"
  proof -
    have "subseq (take i (participants s) @ drop (Suc i) (participants s)) (participants s)"
      by (rule subseq_remove)
    moreover have "subseq (participants s) (originalParticipants s)"
      using assms(1) by (simp add: pool_invariant_def)
    ultimately show ?thesis unfolding s' by (auto intro: subseq_order.order_trans)
  qed
  have b: "mset (participants s') + mset (map participant_of (winners s')) = mset (originalParticipants s')"
  proof -
    have "mset (participants s) + mset (map participant_of (winners s)) = mset (originalParticipants s)"
      using assms(1) by (simp add: pool_invariant_def)
    moreover have "mset (take i (participants s) @ drop (Suc i) (participants s)) + {#participants s ! i#}
        = mset (participants s)"
      using i by (rule mset_remove)
    ultimately have "mset (take i (participants s) @ drop (Suc i) (participants s))
        + (mset (map participant_of (winners s)) + {#participants s ! i#})
        = mset (originalParticipants s)"
      by (metis add.assoc add.commute)
    then show ?thesis unfolding s' by (simp add: participant_of_winner)
  qed
  have c: "map position (winners s') = [1..<Suc (length (winners s'))]"
  proof -
    have "map position (winners s) = [1..<Suc (length (winners s))]"
      using assms(1) by (simp add: pool_invariant_def)
    then show ?thesis unfolding s' by simp
  qed
  have "coherent s'" unfolding s' by (simp add: coherent_def)
  with a b c show ?thesis by (simp add: pool_invariant_def)
qed

lemma invariant_step:
  assumes "pool_invariant s" and "coherent s" and "deliver L e s = Some (s', t)"
    and "\<not> (e = ClickClear \<and> isDrawing s)"
  shows "pool_invariant s' \<and> coherent s'"
proof (cases e)
  case (Change x)
  with assms(3) have "participants s = []" "s' = s\<lparr>participantText := x\<rparr>"
    by (auto simp: deliver_def enabled_def handler_def split: if_splits)
  then show ?thesis using assms(1,2) by (auto simp: pool_invariant_def coherent_def split: if_splits)
next
  case ClickLoad
  with assms(3) have "participants s = []" "s' = fst (handleParticipantsSubmit L s)"
    by (auto simp: deliver_def enabled_def handler_def split: if_splits)
  then show ?thesis using invariant_load [OF assms(1,2)] by simp
next
  case ClickClear
  with assms(3,4) have "\<not> isDrawing s" "s' = fst (clearAll s)"
    by (auto simp: deliver_def enabled_def handler_def split: if_splits)
  then show ?thesis using assms(2)
    by (auto simp: clearAll_def pool_invariant_def coherent_def split: if_splits)
next
  case ClickReset
  with assms(3) have "\<not> isDrawing s" "s' = fst (resetDraw s)"
    by (auto simp: deliver_def enabled_def handler_def split: if_splits)
  then show ?thesis using assms(2)
    by (auto simp: resetDraw_def pool_invariant_def coherent_def split: if_splits)
next
  case ClickDraw
  with assms(3) have "\<not> isDrawing s" "participants s \<noteq> []" "s' = fst (drawWinner s)"
    by (auto simp: deliver_def enabled_def handler_def split: if_splits)
  then show ?thesis using assms(1,2)
    by (auto simp: drawWinner_def pool_invariant_def coherent_def split: if_splits)
next
  case (TimerFires i d)
  with assms(3) have "timeouts s \<noteq> []" "timerFires i d s = Some (s', t)"
    by (auto simp: deliver_def enabled_def handler_def split: if_splits)
  then show ?thesis using invariant_reveal [OF assms(1,2)] by blast
qed

lemma invariant_initial: "pool_invariant initial \<and> coherent initial"
  by (simp add: initial_def pool_invariant_def coherent_def)

lemma invariant_run:
  "pool_invariant s \<Longrightarrow> coherent s \<Longrightarrow> clear_waits L es s \<Longrightarrow> run L es s = Some s' \<Longrightarrow>
   pool_invariant s' \<and> coherent s'"
proof (induction es arbitrary: s)
  case Nil
  then show ?case by simp
next
  case (Cons e es)
  from Cons.prems(4) obtain s1 t where d: "deliver L e s = Some (s1, t)" and r: "run L es s1 = Some s'"
    by (auto split: option.splits)
  from Cons.prems(3) d have ne: "\<not> (e = ClickClear \<and> isDrawing s)" and cw: "clear_waits L es s1"
    by auto
  from invariant_step [OF Cons.prems(1,2) d ne] have "pool_invariant s1" "coherent s1" by auto
  from Cons.IH [OF this cw r] show ?case .
qed

lemma snapshot_stable:
  assumes "deliver L e s = Some (s', t)"
  shows "originalParticipants s' = originalParticipants s \<or> e = ClickClear \<or>
     (e = ClickLoad \<and> t = Some (ParticipantsLoaded (length (originalParticipants s'))))"
  using assms
  by (cases e)
    (auto simp: deliver_def enabled_def handler_def timerFires_def handleParticipantsSubmit_def
      Let_def drawWinner_def resetDraw_def revealWinner_def split: if_splits list.splits)

subsection \<open>A load during the reveal delay\<close>

text \<open>
  When a new list is loaded during the delay, the late callback adds a winner of the old
  list and removes an entry of the new one by its index: Y leaves the pool without
  having been drawn.
\<close>

lemma parse_second_example:
  "parseParticipants ascii_lower (utf16 ''7 - X\<newline>8 - Y'')
     = [\<lparr>number = Finite 7, name = utf16 ''X'', ident = utf16 ''7-x''\<rparr>,
        \<lparr>number = Finite 8, name = utf16 ''Y'', ident = utf16 ''8-y''\<rparr>]"
  unfolding parseParticipants_lines
  by (simp add: string_eval toDouble_exact toString_exact)

lemma reload_during_draw_loses_entry:
  "run ascii_lower [Change (utf16 ''1 - Alice\<newline>2 - Bob''), ClickLoad, ClickDraw, ClickClear,
        Change (utf16 ''7 - X\<newline>8 - Y''), ClickLoad, TimerFires 1 1000] initial
     = Some \<lparr>participantText = utf16 ''7 - X\<newline>8 - Y'',
         participants = [\<lparr>number = Finite 7, name = utf16 ''X'', ident = utf16 ''7-x''\<rparr>],
         originalParticipants = [\<lparr>number = Finite 7, name = utf16 ''X'', ident = utf16 ''7-x''\<rparr>,
                                 \<lparr>number = Finite 8, name = utf16 ''Y'', ident = utf16 ''8-y''\<rparr>],
         winners = [\<lparr>number = Finite 2, name = utf16 ''Bob'', ident = utf16 ''2-bob'',
                     drawnAt = 1000, position = 1\<rparr>],
         currentWinner = Some \<lparr>number = Finite 2, name = utf16 ''Bob'', ident = utf16 ''2-bob'',
                     drawnAt = 1000, position = 1\<rparr>,
         isDrawing = False, timeouts = []\<rparr>"
proof -
  have d: "duplicates [Finite 7, Finite 8] = []"
    by (simp only: duplicates_Nil_iff) simp
  have t: "trim (utf16 ''7 - X\<newline>8 - Y'') \<noteq> []"
    by (simp add: utf16_def trim_def is_space_def)
  have c: "deliver ascii_lower (Change (utf16 ''7 - X\<newline>8 - Y'')) (fst (clearAll drawing))
      = Some ((fst (clearAll drawing))\<lparr>participantText := utf16 ''7 - X\<newline>8 - Y''\<rparr>, None)"
    by (simp add: deliver_def enabled_def handler_def clearAll_def)
  have l: "deliver ascii_lower ClickLoad
        ((fst (clearAll drawing))\<lparr>participantText := utf16 ''7 - X\<newline>8 - Y''\<rparr>)
      = Some (\<lparr>participantText = utf16 ''7 - X\<newline>8 - Y'',
         participants = [\<lparr>number = Finite 7, name = utf16 ''X'', ident = utf16 ''7-x''\<rparr>,
                         \<lparr>number = Finite 8, name = utf16 ''Y'', ident = utf16 ''8-y''\<rparr>],
         originalParticipants = [\<lparr>number = Finite 7, name = utf16 ''X'', ident = utf16 ''7-x''\<rparr>,
                                 \<lparr>number = Finite 8, name = utf16 ''Y'', ident = utf16 ''8-y''\<rparr>],
         winners = [], currentWinner = None, isDrawing = True,
         timeouts = [([alice, bob], [])]\<rparr>, Some (ParticipantsLoaded 2))"
    using t d
    by (simp add: deliver_def enabled_def handler_def clearAll_def handleParticipantsSubmit_def
        parse_second_example drawing_def loaded_def Let_def)
  have f: "deliver ascii_lower (TimerFires 1 1000)
        \<lparr>participantText = utf16 ''7 - X\<newline>8 - Y'',
         participants = [\<lparr>number = Finite 7, name = utf16 ''X'', ident = utf16 ''7-x''\<rparr>,
                         \<lparr>number = Finite 8, name = utf16 ''Y'', ident = utf16 ''8-y''\<rparr>],
         originalParticipants = [\<lparr>number = Finite 7, name = utf16 ''X'', ident = utf16 ''7-x''\<rparr>,
                                 \<lparr>number = Finite 8, name = utf16 ''Y'', ident = utf16 ''8-y''\<rparr>],
         winners = [], currentWinner = None, isDrawing = True,
         timeouts = [([alice, bob], [])]\<rparr>
      = Some (\<lparr>participantText = utf16 ''7 - X\<newline>8 - Y'',
         participants = [\<lparr>number = Finite 7, name = utf16 ''X'', ident = utf16 ''7-x''\<rparr>],
         originalParticipants = [\<lparr>number = Finite 7, name = utf16 ''X'', ident = utf16 ''7-x''\<rparr>,
                                 \<lparr>number = Finite 8, name = utf16 ''Y'', ident = utf16 ''8-y''\<rparr>],
         winners = [\<lparr>number = Finite 2, name = utf16 ''Bob'', ident = utf16 ''2-bob'',
                     drawnAt = 1000, position = 1\<rparr>],
         currentWinner = Some \<lparr>number = Finite 2, name = utf16 ''Bob'', ident = utf16 ''2-bob'',
                     drawnAt = 1000, position = 1\<rparr>,
         isDrawing = False, timeouts = []\<rparr>, Some (WinnerDrawn (utf16 ''Bob'')))"
    by (simp add: deliver_def enabled_def handler_def timerFires_def revealWinner_def
        bob_def filter_indexed_def Let_def)
  show ?thesis
    using f
    by (simp add: deliver_change_example deliver_load_example deliver_draw_example
        deliver_clear_example c l)
qed

end
